theory Spec2Isabelle
  imports Main "HOL-Library.AList"
begin

section \<open>Values\<close>

text \<open>
  The values that travel through the Socket and the Transport are JavaScript values of
  type \<^verbatim>\<open>any\<close>. The model keeps the kinds the code tells apart: the two empty values,
  booleans, integral numbers, strings, opaque objects (named by a number) and Error
  objects. An Error object is given by its class and the arguments of its constructor;
  the classes are the ones \<^verbatim>\<open>socket.ts\<close> and the Transport import from \<^verbatim>\<open>./errors\<close>,
  the built-in \<^verbatim>\<open>Error\<close> and \<^verbatim>\<open>TypeError\<close>.
\<close>

datatype jsval =
    Undefined
  | Null
  | JBool bool
  | JNum int
  | JStr string
  | JObj nat
  | JErr error
and error =
    Error string
  | TypeError string
  | RequiredError string
  | DisposedError string
  | InvalidInputError
  | InvalidOutputError
  | SocketOpenError
  | SocketClosedError
  | ConnectionLostError
  | TimeoutError
  | NotFoundError string
  | UnhandledExceptionError jsval

text \<open>The test of \<^verbatim>\<open>if (v)\<close> and of \<^verbatim>\<open>v || d\<close>.\<close>

fun truthy :: "jsval \<Rightarrow> bool" where
  "truthy Undefined = False"
| "truthy Null = False"
| "truthy (JBool b) = b"
| "truthy (JNum n) = (n \<noteq> 0)"
| "truthy (JStr s) = (s \<noteq> [])"
| "truthy (JObj n) = True"
| "truthy (JErr e) = True"

text \<open>\<^verbatim>\<open>isError\<close> of the package is-error.\<close>

fun isError :: "jsval \<Rightarrow> bool" where
  "isError (JErr e) = True"
| "isError v = False"

text \<open>Decimal digits of a natural number, for the string form of a number.\<close>

fun decimal :: "nat \<Rightarrow> string" where
  "decimal n =
     (if n < 10 then [char_of (48 + n)]
      else decimal (n div 10) @ [char_of (48 + n mod 10)])"

declare decimal.simps [simp del]

text \<open>
  \<^verbatim>\<open>v.toString()\<close> for the values that are not Error objects. The code calls it only
  on a truthy value that \<^verbatim>\<open>isError\<close> rejects, so the empty values and Error objects
  never reach it; they are given their \<^verbatim>\<open>String(v)\<close> form and the class-independent
  prefix of an Error's string form.
\<close>

fun toString :: "jsval \<Rightarrow> string" where
  "toString Undefined = ''undefined''"
| "toString Null = ''null''"
| "toString (JBool b) = (if b then ''true'' else ''false'')"
| "toString (JNum n) = (if n < 0 then ''-'' @ decimal (nat (- n)) else decimal (nat n))"
| "toString (JStr s) = s"
| "toString (JObj n) = ''[object Object]''"
| "toString (JErr e) = ''Error''"

text \<open>
  \<^verbatim>\<open>e.message\<close>. The text of a built-in error is the argument of its constructor. The
  classes under \<^verbatim>\<open>./errors\<close> are not among the sources, so their texts are a parameter
  \<open>msg\<close> of the functions that read a message.
\<close>

fun message :: "(error \<Rightarrow> string) \<Rightarrow> error \<Rightarrow> string" where
  "message msg (Error s) = s"
| "message msg (TypeError s) = s"
| "message msg e = msg e"

text \<open>
  Modelled from the spec: \<^verbatim>\<open>requires(name, value)\<close> of \<^verbatim>\<open>./utils/assertions\<close>, which is
  not among the sources. It fails with a required-argument error when the value is empty
  or absent; the arguments it is given here are strings.
\<close>

definition requires :: "string \<Rightarrow> string \<Rightarrow> jsval option" where
  "requires name v = (if v = [] then Some (JErr (RequiredError name)) else None)"

section \<open>Transport\<close>

text \<open>
  The Transport wraps an input object (an event emitter that holds listeners by channel)
  and an output object (something with \<^verbatim>\<open>send\<close>). Both are outside the program. The
  model keeps of the input the registrations it holds, in registration order, and of the
  output the messages it was handed and whether its \<^verbatim>\<open>send\<close> raises.

  A listener is the closure \<^verbatim>\<open>(_, ...args) => { subscriber(args) }\<close> that \<^verbatim>\<open>on\<close> creates:
  every call of \<^verbatim>\<open>on\<close> creates a new one, told apart by a serial number, and it captures
  the subscriber. A subscription is the closure \<^verbatim>\<open>this.__unsubscribe.bind(this, id)\<close>.
\<close>

datatype 's listener = Listener nat 's

datatype subscription = Unsubscribe string

record 's Transport =
  t_disposed :: bool
  listeners :: "(string \<times> string \<times> 's listener) list option"
  t_input :: "(string \<times> 's listener) list"
  t_output :: "(string \<times> jsval list) list"
  output_raises :: "jsval option"
  closures :: nat

text \<open>The object handed to the constructor: which members are functions.\<close>

record rawio =
  has_on :: bool
  has_once :: bool
  has_removeAllListeners :: bool
  has_removeListener :: bool
  has_send :: bool
  send_raises :: "jsval option"

definition Transport_constructor :: "rawio option \<Rightarrow> rawio option \<Rightarrow> jsval + 's Transport" where
  "Transport_constructor inp outp =
     (case inp of
        None \<Rightarrow> Inl (JErr (RequiredError ''input''))
      | Some i \<Rightarrow>
          (let out = (case outp of None \<Rightarrow> i | Some ou \<Rightarrow> ou) in
           if \<not> has_on i \<or> \<not> has_once i \<or> \<not> has_removeAllListeners i
              \<or> \<not> has_removeListener i
           then Inl (JErr InvalidInputError)
           else if \<not> has_send out then Inl (JErr InvalidOutputError)
           else Inr \<lparr> t_disposed = False, listeners = Some [], t_input = [], t_output = [],
                      output_raises = send_raises out, closures = 0 \<rparr>))"

text \<open>
  \<^verbatim>\<open>send(channel, ...args)\<close>. The decorator \<^verbatim>\<open>@protect({ err: true })\<close> of the package
  disposable-class makes the call fail on a disposed instance; the value it raises is
  taken to be the \<^verbatim>\<open>DisposedError\<close> that \<^verbatim>\<open>on\<close> raises itself. The result is the value
  raised, if any, and the Transport afterwards.
\<close>

definition Transport_send ::
  "string \<Rightarrow> jsval list \<Rightarrow> 's Transport \<Rightarrow> jsval option \<times> 's Transport" where
  "Transport_send channel args t =
     (if t_disposed t then (Some (JErr (DisposedError ''Transport'')), t)
      else case requires ''channel'' channel of
        Some e \<Rightarrow> (Some e, t)
      | None \<Rightarrow>
          (case output_raises t of
             Some e \<Rightarrow> (Some e, t)
           | None \<Rightarrow> (None, t\<lparr> t_output := t_output t @ [(channel, args)] \<rparr>)))"

text \<open>
  \<^verbatim>\<open>on(channel, subscriber)\<close>; \<open>nid\<close> is the value \<^verbatim>\<open>nanoid()\<close> returns in this call.
\<close>

definition Transport_on ::
  "string \<Rightarrow> 's option \<Rightarrow> string \<Rightarrow> 's Transport \<Rightarrow> jsval + (subscription \<times> 's Transport)" where
  "Transport_on channel subscriber nid t =
     (if t_disposed t then Inl (JErr (DisposedError ''Transport''))
      else case requires ''channel'' channel of
        Some e \<Rightarrow> Inl e
      | None \<Rightarrow>
          (case subscriber of
             None \<Rightarrow> Inl (JErr (RequiredError ''subscriber''))
           | Some sub \<Rightarrow>
               (case listeners t of
                  None \<Rightarrow> Inl (JErr (DisposedError ''Transport''))
                | Some ls \<Rightarrow>
                    (let listener = Listener (closures t) sub in
                     Inr (Unsubscribe nid,
                          t\<lparr> t_input := t_input t @ [(channel, listener)],
                             listeners := Some (AList.update nid (channel, listener) ls),
                             closures := Suc (closures t) \<rparr>)))))"

text \<open>
  \<^verbatim>\<open>__unsubscribe(id)\<close>. \<^verbatim>\<open>removeListener(channel, fn)\<close> of the input takes one registration
  of that listener on that channel away.
\<close>

definition Transport_unsubscribe :: "string \<Rightarrow> 's Transport \<Rightarrow> 's Transport" where
  "Transport_unsubscribe i t =
     (case listeners t of
        None \<Rightarrow> t
      | Some ls \<Rightarrow>
          (let t1 = (case map_of ls i of
                       None \<Rightarrow> t
                     | Some (channel, fn) \<Rightarrow> t\<lparr> t_input := remove1 (channel, fn) (t_input t) \<rparr>)
           in t1\<lparr> listeners := Some (AList.delete i ls) \<rparr>))"

text \<open>
  \<^verbatim>\<open>dispose()\<close> of the Transport: the base class marks the instance disposed, every
  subscription is undone and the table of listeners is deleted.
\<close>

definition Transport_dispose :: "'s Transport \<Rightarrow> 's Transport" where
  "Transport_dispose t =
     (let t1 = t\<lparr> t_disposed := True \<rparr>
      in case listeners t1 of
           None \<Rightarrow> t1
         | Some ls \<Rightarrow> (fold Transport_unsubscribe (map fst ls) t1)\<lparr> listeners := None \<rparr>)"

text \<open>Calling a subscription.\<close>

fun cancel :: "subscription \<Rightarrow> 's Transport \<Rightarrow> 's Transport" where
  "cancel (Unsubscribe i) t = Transport_unsubscribe i t"

text \<open>
  What a listener does when the input calls it with the arguments of an emission: the
  first argument is bound to \<^verbatim>\<open>_\<close> and not used, the rest is collected in \<^verbatim>\<open>args\<close> and
  handed, as one list, to the subscriber. The result names the subscriber called and
  the list it receives.
\<close>

fun call_listener :: "'s listener \<Rightarrow> jsval list \<Rightarrow> 's \<times> jsval list" where
  "call_listener (Listener n subscriber) emitted_args = (subscriber, drop 1 emitted_args)"

text \<open>
  An emission of the input on a channel calls the listeners registered for that channel,
  in registration order.
\<close>

definition input_emit :: "string \<Rightarrow> jsval list \<Rightarrow> 's Transport \<Rightarrow> ('s \<times> jsval list) list" where
  "input_emit channel emitted_args t =
     map (\<lambda>(c, l). call_listener l emitted_args) (filter (\<lambda>(c, l). c = channel) (t_input t))"

section \<open>The internal bus\<close>

text \<open>
  The bus is an emitter of the package nanoevents: a table \<^verbatim>\<open>events\<close> from a key to the
  list of callbacks registered under it, in registration order. What is emitted on it is
  an \<^verbatim>\<open>Event\<close> (a name and an optional payload) or, for a request, the pair of the
  correlation id and the \<^verbatim>\<open>InboundRequest\<close> (a path and a payload).

  A callback is a function handed to \<^verbatim>\<open>on\<close> directly, named by a number, or the
  wrapper that \<^verbatim>\<open>__subscribe\<close> creates for \<^verbatim>\<open>once\<close>: the wrapper is named by the number
  of its variable \<^verbatim>\<open>unbind\<close> and captures the listener. The value \<^verbatim>\<open>on\<close> returns is the
  closure that removes that callback from the list of that key.

  The bus also keeps a trace: the emissions made on it (\<open>emitted\<close>) and the calls made
  to the functions registered on it (\<open>calls\<close>), each with the callback that made the
  call and the argument.
\<close>

datatype event = Event string jsval

datatype inbound_request = InboundRequest string jsval

datatype busarg = EventArg event | RequestArg string inbound_request

datatype callback = Direct nat | Once nat nat

datatype unbind = Unbind string callback

record Bus =
  events :: "string \<rightharpoonup> callback list"
  unbind_var :: "nat \<rightharpoonup> unbind"
  wrappers :: nat
  emitted :: "(string \<times> busarg) list"
  calls :: "(callback \<times> busarg) list"

definition createNanoEvents :: Bus where
  "createNanoEvents =
     \<lparr> events = Map.empty, unbind_var = Map.empty, wrappers = 0, emitted = [], calls = [] \<rparr>"

text \<open>
  An emission as the Socket's own code sees it: the emission is recorded. The run of the
  callbacks of the key is \<open>emit\<close> in the section on delivery.
\<close>

definition publish :: "string \<Rightarrow> busarg \<Rightarrow> Bus \<Rightarrow> Bus" where
  "publish key arg b = b\<lparr> emitted := emitted b @ [(key, arg)] \<rparr>"

text \<open>\<^verbatim>\<open>__hasHandler(event)\<close>.\<close>

definition hasHandler :: "string \<Rightarrow> Bus \<Rightarrow> bool" where
  "hasHandler key b = (case events b key of None \<Rightarrow> False | Some handlers \<Rightarrow> length handlers > 0)"

section \<open>Socket\<close>

text \<open>
  Modelled from the spec: \<^verbatim>\<open>OutboundRequest\<close> (\<^verbatim>\<open>./outbound-request\<close> is not among the
  sources). It has an id, the timestamp of its creation and the two callbacks of the
  promise it settles; it settles at most once, and settling it again does nothing. The
  request is an object shared by the pending table and by the closure that created it,
  so its mutable part, whether and how it has settled, lives in a store at the address
  \<open>cell\<close>.
\<close>

datatype outcome = Resolved jsval | Rejected error

record OutboundRequest =
  req_id :: string
  timestamp :: int
  cell :: nat

type_synonym store = "nat \<rightharpoonup> outcome"

definition isDisposed :: "OutboundRequest \<Rightarrow> store \<Rightarrow> bool" where
  "isDisposed req st = (st (cell req) \<noteq> None)"

definition resolve :: "OutboundRequest \<Rightarrow> jsval \<Rightarrow> store \<Rightarrow> store" where
  "resolve req v st = (if isDisposed req st then st else st(cell req \<mapsto> Resolved v))"

definition reject :: "OutboundRequest \<Rightarrow> error \<Rightarrow> store \<Rightarrow> store" where
  "reject req e st = (if isDisposed req st then st else st(cell req \<mapsto> Rejected e))"

text \<open>The timer of the package pinterval: its period and whether it runs.\<close>

record Interval =
  time :: int
  isRunning :: bool

definition start :: "Interval \<Rightarrow> Interval" where
  "start i = i\<lparr> isRunning := True \<rparr>"

definition stop :: "Interval \<Rightarrow> Interval" where
  "stop i = i\<lparr> isRunning := False \<rparr>"

record Settings =
  timeout :: "int option"
  cleanup :: "int option"

text \<open>The three bound methods the Socket hands to \<^verbatim>\<open>transport.on\<close>.\<close>

datatype handler = HandleEvent | HandleRequest | HandleResponse

text \<open>
  The fields of the class, the flag of its base class \<^verbatim>\<open>Disposable\<close>, and what the
  Socket's code acts on outside itself: the store of the requests it created
  (\<open>settled\<close>, with the number of requests created so far) and the callbacks it handed
  to \<^verbatim>\<open>setTimeout\<close>, each an emission on the bus that a later turn makes.
\<close>

record Socket =
  s_disposed :: bool
  isOpen :: bool
  channel :: "string option"
  requestTimeout :: int
  transport :: "handler Transport"
  bus :: Bus
  interval :: Interval
  pendingRequests :: "(string \<times> OutboundRequest) list option"
  subscriptions :: "subscription list option"
  settled :: store
  allocated :: nat
  timers :: "(string \<times> busarg) list"

text \<open>\<^verbatim>\<open>v || d\<close> on an optional number.\<close>

definition or_default :: "int option \<Rightarrow> int \<Rightarrow> int" where
  "or_default v d = (case v of None \<Rightarrow> d | Some n \<Rightarrow> if truthy (JNum n) then n else d)"

text \<open>
  The constructor. Its first argument is absent, a Transport, or an object to build a
  Transport from.
\<close>

definition Socket_constructor ::
  "(handler Transport + rawio) option \<Rightarrow> Settings \<Rightarrow> jsval + Socket" where
  "Socket_constructor tr settings =
     (case tr of
        None \<Rightarrow> Inl (JErr (RequiredError ''transport''))
      | Some x \<Rightarrow>
          (case (case x of Inl t \<Rightarrow> Inr t | Inr raw \<Rightarrow> Transport_constructor (Some raw) None) of
             Inl e \<Rightarrow> Inl e
           | Inr t \<Rightarrow>
               Inr \<lparr> s_disposed = False,
                     isOpen = False,
                     channel = None,
                     requestTimeout = or_default (timeout settings) (1000 * 60),
                     transport = t,
                     bus = createNanoEvents,
                     interval = \<lparr> time = or_default (cleanup settings) (1000 * 60),
                                  isRunning = False \<rparr>,
                     pendingRequests = None,
                     subscriptions = None,
                     settled = Map.empty,
                     allocated = 0,
                     timers = [] \<rparr>))"

text \<open>
  The public methods carry \<^verbatim>\<open>@protect({ err: true })\<close>: on a disposed instance they
  raise. A method that raises returns \<open>Inl\<close> with the value raised and the state it
  leaves behind. (\<^verbatim>\<open>dispose()\<close> of the Socket rests on the base class and the \<^verbatim>\<open>@free\<close>
  decorators of disposable-class, which are not among the sources; it is not part of
  the model, and \<open>s_disposed\<close> stands for its having been called.)
\<close>

text \<open>\<^verbatim>\<open>`${this.__channel}`\<close>: an unset channel prints as \<^verbatim>\<open>undefined\<close>.\<close>

definition template :: "string option \<Rightarrow> string" where
  "template c = (case c of None \<Rightarrow> ''undefined'' | Some s \<Rightarrow> s)"

text \<open>
  \<^verbatim>\<open>open(channel)\<close>; \<open>n1\<close>, \<open>n2\<close>, \<open>n3\<close> are the ids \<^verbatim>\<open>nanoid()\<close> returns in the three
  calls of \<^verbatim>\<open>transport.on\<close>.
\<close>

definition Socket_open ::
  "string \<Rightarrow> string \<Rightarrow> string \<Rightarrow> string \<Rightarrow> Socket \<Rightarrow> (jsval \<times> Socket) + Socket" where
  "Socket_open ch n1 n2 n3 s =
     (if s_disposed s then Inl (JErr (DisposedError ''Socket''), s)
      else if isOpen s then Inl (JErr SocketOpenError, s)
      else
        (case Transport_on (ch @ '':events'') (Some HandleEvent) n1 (transport s) of
           Inl e \<Rightarrow> Inl (e, s)
         | Inr (sub1, t1) \<Rightarrow>
        (case Transport_on (ch @ '':requests'') (Some HandleRequest) n2 t1 of
           Inl e \<Rightarrow> Inl (e, s\<lparr> transport := t1 \<rparr>)
         | Inr (sub2, t2) \<Rightarrow>
        (case Transport_on (ch @ '':responses'') (Some HandleResponse) n3 t2 of
           Inl e \<Rightarrow> Inl (e, s\<lparr> transport := t2 \<rparr>)
         | Inr (sub3, t3) \<Rightarrow>
             Inr (s\<lparr> transport := t3,
                     subscriptions := Some [sub1, sub2, sub3],
                     isOpen := True,
                     channel := Some ch,
                     pendingRequests := Some [],
                     interval := start (interval s),
                     bus := publish ''open'' (EventArg (Event ''open'' Undefined)) (bus s) \<rparr>)))))"

text \<open>
  \<^verbatim>\<open>close()\<close>. The loop over \<^verbatim>\<open>Object.keys(pendingRequests)\<close> looks each key up and
  rejects the request found.
\<close>

definition Socket_close :: "Socket \<Rightarrow> (jsval \<times> Socket) + Socket" where
  "Socket_close s =
     (if s_disposed s then Inl (JErr (DisposedError ''Socket''), s)
      else if \<not> isOpen s then Inl (JErr SocketClosedError, s)
      else
        (let s1 = s\<lparr> isOpen := False, channel := None, interval := stop (interval s) \<rparr>;
             s2 = (case subscriptions s1 of
                     None \<Rightarrow> s1
                   | Some subs \<Rightarrow> s1\<lparr> transport := fold cancel subs (transport s1) \<rparr>);
             s3 = (case pendingRequests s2 of
                     None \<Rightarrow> s2
                   | Some requests \<Rightarrow>
                       s2\<lparr> settled :=
                             fold (\<lambda>i st. case map_of requests i of
                                             None \<Rightarrow> st
                                           | Some req \<Rightarrow> reject req ConnectionLostError st)
                                  (map fst requests) (settled s2) \<rparr>)
         in Inr (s3\<lparr> bus := publish ''close'' (EventArg (Event ''close'' Undefined)) (bus s3) \<rparr>)))"

text \<open>\<^verbatim>\<open>send(event, payload)\<close>.\<close>

definition Socket_send :: "string \<Rightarrow> jsval \<Rightarrow> Socket \<Rightarrow> (jsval \<times> Socket) + Socket" where
  "Socket_send ev payload s =
     (if s_disposed s then Inl (JErr (DisposedError ''Socket''), s)
      else if \<not> isOpen s then Inl (JErr SocketClosedError, s)
      else case requires ''event'' ev of
        Some e \<Rightarrow> Inl (e, s)
      | None \<Rightarrow>
          (case Transport_send (template (channel s) @ '':events'') [JStr ev, payload]
                  (transport s) of
             (Some e, t) \<Rightarrow> Inl (e, s\<lparr> transport := t \<rparr>)
           | (None, t) \<Rightarrow> Inr (s\<lparr> transport := t \<rparr>)))"

text \<open>
  \<^verbatim>\<open>__sendResponse(path, id, err, payload)\<close>; an argument left out is \<^verbatim>\<open>undefined\<close>.
\<close>

definition Socket_sendResponse ::
  "(error \<Rightarrow> string) \<Rightarrow> string \<Rightarrow> string \<Rightarrow> jsval \<Rightarrow> jsval \<Rightarrow> Socket
     \<Rightarrow> (jsval \<times> Socket) + Socket" where
  "Socket_sendResponse msg path i err payload s =
     (let data = (if truthy err then Null else payload);
          (error, s1) =
            (case err of
               JErr e \<Rightarrow>
                 (JStr (message msg e),
                  s\<lparr> timers := timers s @ [(''error'', EventArg (Event ''error'' err))] \<rparr>)
             | _ \<Rightarrow> (err, s))
      in case Transport_send (template (channel s1) @ '':responses'')
                [JStr path, JStr i, error, data] (transport s1) of
           (Some e, t) \<Rightarrow> Inl (e, s1\<lparr> transport := t \<rparr>)
         | (None, t) \<Rightarrow> Inr (s1\<lparr> transport := t \<rparr>))"

text \<open>
  \<^verbatim>\<open>__handleRequest([path, id, payload])\<close>; \<open>BUS_REQUESTS\<close> is the constant of that
  name, a random string chosen when the module loads.
\<close>

definition Socket_handleRequest ::
  "(error \<Rightarrow> string) \<Rightarrow> string \<Rightarrow> string \<times> string \<times> jsval \<Rightarrow> Socket
     \<Rightarrow> (jsval \<times> Socket) + Socket" where
  "Socket_handleRequest msg BUS_REQUESTS data s =
     (case data of (path, i, payload) \<Rightarrow>
        (let req = InboundRequest path payload;
             evt = BUS_REQUESTS @ ''/'' @ path
         in if hasHandler evt (bus s)
            then Inr (s\<lparr> bus := publish evt (RequestArg i req) (bus s) \<rparr>)
            else Socket_sendResponse msg path i (JErr (NotFoundError path)) Undefined s))"

text \<open>
  The value a response's error field rejects with:
  \<^verbatim>\<open>isError(err) ? err : new Error(err.toString())\<close>.
\<close>

fun rejection :: "jsval \<Rightarrow> error" where
  "rejection (JErr e) = e"
| "rejection v = Error (toString v)"

text \<open>\<^verbatim>\<open>__handleResponse([_, id, err, payload])\<close>.\<close>

definition Socket_handleResponse :: "string \<times> string \<times> jsval \<times> jsval \<Rightarrow> Socket \<Rightarrow> Socket" where
  "Socket_handleResponse data s =
     (case pendingRequests s of
        None \<Rightarrow> s
      | Some requests \<Rightarrow>
          (case data of (path, i, err, payload) \<Rightarrow>
             (case map_of requests i of
                Some request \<Rightarrow>
                  (let s1 = (if truthy err
                             then s\<lparr> settled := reject request (rejection err) (settled s) \<rparr>
                             else s\<lparr> settled := resolve request payload (settled s) \<rparr>)
                   in s1\<lparr> pendingRequests := Some (AList.delete i requests) \<rparr>)
              | None \<Rightarrow>
                  s\<lparr> bus := publish ''error''
                              (EventArg (Event ''error'' (JErr (Error ''Redundant request handler''))))
                              (bus s) \<rparr>)))"

text \<open>
  \<^verbatim>\<open>request(path, payload)\<close>. The method is \<^verbatim>\<open>async\<close>: a failed assertion does not
  raise, it gives a promise that is rejected at once. Otherwise the result is the
  promise of the request created, named by the request's cell. \<open>nid\<close> and \<open>now\<close> are
  the id and the timestamp the new \<^verbatim>\<open>OutboundRequest\<close> gets.

  The call of \<^verbatim>\<open>transport.send\<close> runs code of the output, and a peer on a synchronous
  channel can answer before that call is over. \<open>reply\<close> is that answer, if there is
  one: the error and payload fields of a response to this request, handled by
  \<^verbatim>\<open>__handleResponse\<close> while \<^verbatim>\<open>send\<close> runs. This is how the request can have settled
  when the \<^verbatim>\<open>catch\<close> block looks at it.
\<close>

datatype request_result = Throws jsval | Fails jsval | Future nat

definition during_send :: "(jsval \<times> jsval) option \<Rightarrow> string \<Rightarrow> string \<Rightarrow> Socket \<Rightarrow> Socket" where
  "during_send reply path i s =
     (case reply of
        None \<Rightarrow> s
      | Some (err, payload) \<Rightarrow> Socket_handleResponse (path, i, err, payload) s)"

definition Socket_request ::
  "string \<Rightarrow> jsval \<Rightarrow> string \<Rightarrow> int \<Rightarrow> (jsval \<times> jsval) option \<Rightarrow> Socket
     \<Rightarrow> request_result \<times> Socket" where
  "Socket_request path payload nid now reply s =
     (if s_disposed s then (Throws (JErr (DisposedError ''Socket'')), s)
      else if \<not> isOpen s then (Fails (JErr SocketClosedError), s)
      else case requires ''path'' path of
        Some e \<Rightarrow> (Fails e, s)
      | None \<Rightarrow>
          (let req = \<lparr> req_id = nid, timestamp = now, cell = allocated s \<rparr>;
               s0 = s\<lparr> allocated := Suc (allocated s),
                       settled := (settled s)(allocated s := None) \<rparr>
           in case pendingRequests s0 of
                None \<Rightarrow> (Future (cell req), s0)
              | Some requests \<Rightarrow>
                  (let s1 = s0\<lparr> pendingRequests := Some (AList.update nid req requests) \<rparr>;
                       (raised, t) = Transport_send (template (channel s1) @ '':requests'')
                                       [JStr path, JStr nid, payload] (transport s1);
                       s2 = during_send reply path nid (s1\<lparr> transport := t \<rparr>)
                   in case raised of
                        None \<Rightarrow> (Future (cell req), s2)
                      | Some e \<Rightarrow>
                          (let s3 = (if \<not> isDisposed req (settled s2)
                                     then s2\<lparr> settled := reject req (UnhandledExceptionError e)
                                                            (settled s2),
                                             pendingRequests :=
                                               map_option (AList.delete nid) (pendingRequests s2) \<rparr>
                                     else s2)
                           in (Future (cell req),
                               s3\<lparr> bus := publish ''error'' (EventArg (Event ''error'' e))
                                            (bus s3) \<rparr>)))))"

text \<open>
  \<^verbatim>\<open>__cleanup()\<close>, the function the interval calls on each tick; \<open>now\<close> is the value of
  \<^verbatim>\<open>Date.now()\<close>. The first loop collects the requests that hang, the second rejects
  each and deletes the entry under the request's own id.
\<close>

definition hanging :: "int \<Rightarrow> int \<Rightarrow> (string \<times> OutboundRequest) list \<Rightarrow> OutboundRequest list" where
  "hanging currentTimestamp requestTimeout' requests =
     List.map_filter
       (\<lambda>i. case map_of requests i of
               None \<Rightarrow> None
             | Some request \<Rightarrow>
                 if currentTimestamp - timestamp request > requestTimeout' then Some request
                 else None)
       (map fst requests)"

definition expire :: "OutboundRequest \<Rightarrow> Socket \<Rightarrow> Socket" where
  "expire request s =
     s\<lparr> settled := reject request TimeoutError (settled s),
        pendingRequests := map_option (AList.delete (req_id request)) (pendingRequests s) \<rparr>"

definition Socket_cleanup :: "int \<Rightarrow> Socket \<Rightarrow> Socket" where
  "Socket_cleanup now s =
     (case pendingRequests s of
        None \<Rightarrow> s
      | Some requests \<Rightarrow> fold expire (hanging now (requestTimeout s) requests) s)"

section \<open>Sequences of public operations\<close>

text \<open>
  The state a method leaves behind, whether it returned or raised, and the public
  operations \<^verbatim>\<open>open\<close>, \<^verbatim>\<open>close\<close>, \<^verbatim>\<open>send\<close> and \<^verbatim>\<open>request\<close> as steps on the state, each
  with the arguments of the call and the values the environment supplies to it.
\<close>

fun after :: "(jsval \<times> Socket) + Socket \<Rightarrow> Socket" where
  "after (Inl (e, s)) = s"
| "after (Inr s) = s"

datatype operation =
    Open string string string string
  | Close
  | Send string jsval
  | Request string jsval string int "(jsval \<times> jsval) option"

fun perform :: "operation \<Rightarrow> Socket \<Rightarrow> Socket" where
  "perform (Open ch n1 n2 n3) s = after (Socket_open ch n1 n2 n3 s)"
| "perform Close s = after (Socket_close s)"
| "perform (Send ev payload) s = after (Socket_send ev payload s)"
| "perform (Request path payload nid now reply) s =
     snd (Socket_request path payload nid now reply s)"

text \<open>
  The invariant as the data model words it: \<open>channel\<close> and \<open>pendingRequests\<close> are set
  exactly when \<open>isOpen\<close> holds.
\<close>

definition lockstep :: "Socket \<Rightarrow> bool" where
  "lockstep s = ((channel s \<noteq> None) = isOpen s \<and> (pendingRequests s \<noteq> None) = isOpen s)"

text \<open>
  What the code keeps: \<open>channel\<close> is set exactly when \<open>isOpen\<close> holds, and
  \<open>pendingRequests\<close> is set whenever \<open>isOpen\<close> holds.
\<close>

definition bound_while_open :: "Socket \<Rightarrow> bool" where
  "bound_while_open s = ((channel s \<noteq> None) = isOpen s \<and> (isOpen s \<longrightarrow> pendingRequests s \<noteq> None))"

text \<open>
  What happens to a Socket: a call of a public operation, a message on the responses
  sub-channel, or a tick of the interval.
\<close>

datatype occurrence =
    Call operation
  | Response string string jsval jsval
  | Tick int

fun occur :: "occurrence \<Rightarrow> Socket \<Rightarrow> Socket" where
  "occur (Call op) s = perform op s"
| "occur (Response path i err payload) s = Socket_handleResponse (path, i, err, payload) s"
| "occur (Tick now) s = Socket_cleanup now s"

section \<open>The sweep over time\<close>

text \<open>
  The pending table is a JavaScript object filled by \<^verbatim>\<open>requests[req.id] = req\<close> only: its
  keys are distinct, every request sits under its own id, and no two entries are the
  same request object.
\<close>

definition well_keyed :: "(string \<times> OutboundRequest) list \<Rightarrow> bool" where
  "well_keyed requests =
     (distinct (map fst requests) \<and> (\<forall>(k, r) \<in> set requests. req_id r = k)
      \<and> distinct (map (\<lambda>(k, r). cell r) requests))"

text \<open>
  The state of the pending table that the theorems about \<^verbatim>\<open>close\<close>, the sweep and the
  responses start from: the table is well keyed, its requests were created by this
  Socket, and while the Socket is open they are outstanding (not settled).
\<close>

definition table_ok :: "Socket \<Rightarrow> bool" where
  "table_ok s =
     (case pendingRequests s of
        None \<Rightarrow> True
      | Some requests \<Rightarrow>
          well_keyed requests
          \<and> (\<forall>(k, r) \<in> set requests. cell r < allocated s)
          \<and> (isOpen s \<longrightarrow> (\<forall>(k, r) \<in> set requests. settled s (cell r) = None)))"

text \<open>
  The ticks of the interval, as the times \<^verbatim>\<open>Date.now()\<close> shows when \<^verbatim>\<open>__cleanup\<close> runs:
  each tick comes after the one before it (the first after \<open>prev\<close>, the start of the
  interval or an earlier tick), and no more than one period after it. \<open>sweeps\<close> runs
  \<^verbatim>\<open>__cleanup\<close> at each tick in turn, with nothing else happening to the Socket in
  between.
\<close>

fun schedule :: "int \<Rightarrow> int \<Rightarrow> int list \<Rightarrow> bool" where
  "schedule period prev [] = True"
| "schedule period prev (t # ts) = (prev < t \<and> t \<le> prev + period \<and> schedule period t ts)"

definition sweeps :: "int list \<Rightarrow> Socket \<Rightarrow> Socket" where
  "sweeps ticks s = fold Socket_cleanup ticks s"

section \<open>Subscribing to the bus and delivery\<close>

text \<open>
  \<^verbatim>\<open>on(event, cb)\<close> of the emitter appends the callback to the list of the key and returns
  the closure that unbinds it; unbinding filters the callback out of the list, which
  replaces the list and leaves an emission that is under way with the list it started
  on.
\<close>

definition bus_on :: "string \<Rightarrow> callback \<Rightarrow> Bus \<Rightarrow> unbind \<times> Bus" where
  "bus_on key cb b =
     (Unbind key cb,
      b\<lparr> events := (events b)(key \<mapsto> (case events b key of None \<Rightarrow> [] | Some cbs \<Rightarrow> cbs) @ [cb]) \<rparr>)"

fun run_unbind :: "unbind \<Rightarrow> Bus \<Rightarrow> Bus" where
  "run_unbind (Unbind key cb) b =
     (case events b key of
        None \<Rightarrow> b
      | Some cbs \<Rightarrow> b\<lparr> events := (events b)(key \<mapsto> filter (\<lambda>i. i \<noteq> cb) cbs) \<rparr>)"

text \<open>
  \<^verbatim>\<open>__subscribe(event, listener, once)\<close>. Without \<^verbatim>\<open>once\<close> the listener itself is
  registered and the emitter's closure is returned. With \<^verbatim>\<open>once\<close> a wrapper is registered,
  its variable \<^verbatim>\<open>unbind\<close> is set to the emitter's closure, and the value returned is a
  closure that calls \<^verbatim>\<open>unbind\<close> if it is still set.
\<close>

datatype bus_subscription = Plain unbind | Guarded nat

definition Socket_subscribe :: "string \<Rightarrow> nat \<Rightarrow> bool \<Rightarrow> Bus \<Rightarrow> bus_subscription \<times> Bus" where
  "Socket_subscribe key listener once b =
     (if \<not> once then (case bus_on key (Direct listener) b of (u, b1) \<Rightarrow> (Plain u, b1))
      else
        (case bus_on key (Once (wrappers b) listener) b of
           (u, b1) \<Rightarrow>
             (Guarded (wrappers b),
              b1\<lparr> unbind_var := (unbind_var b1)(wrappers b \<mapsto> u),
                  wrappers := Suc (wrappers b) \<rparr>)))"

text \<open>
  \<^verbatim>\<open>onEvent(name, handler, once)\<close> and \<^verbatim>\<open>onError(handler, once)\<close>; \<open>BUS_EVENTS\<close> is the
  constant of that name, a random string chosen when the module loads.
\<close>

definition Socket_onEvent :: "string \<Rightarrow> string \<Rightarrow> nat \<Rightarrow> bool \<Rightarrow> Bus \<Rightarrow> bus_subscription \<times> Bus" where
  "Socket_onEvent BUS_EVENTS name handler once b =
     Socket_subscribe (BUS_EVENTS @ ''/'' @ name) handler once b"

definition Socket_onError :: "nat \<Rightarrow> bool \<Rightarrow> Bus \<Rightarrow> bus_subscription \<times> Bus" where
  "Socket_onError handler once b = Socket_subscribe ''error'' handler once b"

text \<open>Calling the value \<^verbatim>\<open>__subscribe\<close> returned.\<close>

fun cancel_subscription :: "bus_subscription \<Rightarrow> Bus \<Rightarrow> Bus" where
  "cancel_subscription (Plain u) b = run_unbind u b"
| "cancel_subscription (Guarded c) b =
     (case unbind_var b c of None \<Rightarrow> b | Some u \<Rightarrow> run_unbind u b)"

text \<open>
  The functions registered on the bus are code of the Socket's user. What such a function
  does when it is called is given by a behaviour: it returns, it raises, or, before it
  returns, it makes the Transport deliver an event to this Socket, which runs
  \<^verbatim>\<open>__handleEvent\<close> inside the call. The behaviour of a function may depend on how often
  it has been called before.
\<close>

datatype action = Returns | Raises jsval | Delivers string jsval

type_synonym behaviour = "nat \<Rightarrow> nat \<Rightarrow> action"

fun target :: "callback \<Rightarrow> nat" where
  "target (Direct l) = l"
| "target (Once c l) = l"

text \<open>
  The loop of \<^verbatim>\<open>emit\<close> over the callbacks: a callback that raises ends it. A result is
  the bus afterwards and the value raised, if any.
\<close>

primrec run_callbacks ::
  "(callback \<Rightarrow> Bus \<Rightarrow> (Bus \<times> jsval option) option) \<Rightarrow> callback list \<Rightarrow> Bus
     \<Rightarrow> (Bus \<times> jsval option) option" where
  "run_callbacks f [] b = Some (b, None)"
| "run_callbacks f (cb # cbs) b =
     (case f cb b of
        None \<Rightarrow> None
      | Some (b1, Some e) \<Rightarrow> Some (b1, Some e)
      | Some (b1, None) \<Rightarrow> run_callbacks f cbs b1)"

text \<open>
  Delivery. A function of the user can deliver another event from inside a call, so the
  four functions call each other without a bound; each takes fuel, the number of nested
  calls it may make, and \<open>None\<close> says that the fuel ran out. Every call passes
  less fuel on, which is why the recursion ends.

  \<^item> \<open>emit\<close> is \<^verbatim>\<open>emit(event, arg)\<close> of the emitter: it records the emission and calls
    the callbacks that the key has when the emission starts, in order.
  \<^item> \<open>call_callback\<close> calls one callback. A listener registered directly is run. The
    wrapper of \<^verbatim>\<open>once\<close> is
    \<^verbatim>\<open>if (unbind != null) { listener(args); unbind(); unbind = undefined; }\<close>;
    calling \<^verbatim>\<open>unbind\<close> when the variable holds \<^verbatim>\<open>undefined\<close> raises a TypeError.
  \<^item> \<open>invoke\<close> runs the function a callback stands for: the call is recorded with the
    callback that made it, then the function behaves as its behaviour says.
  \<^item> \<open>handleEvent\<close> is \<^verbatim>\<open>__handleEvent([name, payload])\<close>: it emits the event under the
    key of its name and, when that raises, emits the value raised as an \<^verbatim>\<open>error\<close> event.
\<close>

function (sequential) emit :: "nat \<Rightarrow> string \<Rightarrow> behaviour \<Rightarrow> string \<Rightarrow> busarg \<Rightarrow> Bus \<Rightarrow> (Bus \<times> jsval option) option"
and call_callback ::
  "nat \<Rightarrow> string \<Rightarrow> behaviour \<Rightarrow> callback \<Rightarrow> busarg \<Rightarrow> Bus \<Rightarrow> (Bus \<times> jsval option) option"
and invoke ::
  "nat \<Rightarrow> string \<Rightarrow> behaviour \<Rightarrow> callback \<Rightarrow> busarg \<Rightarrow> Bus \<Rightarrow> (Bus \<times> jsval option) option"
and handleEvent ::
  "nat \<Rightarrow> string \<Rightarrow> behaviour \<Rightarrow> string \<times> jsval \<Rightarrow> Bus \<Rightarrow> (Bus \<times> jsval option) option"
where
  "emit 0 BUS_EVENTS beh key arg b = None"
| "emit (Suc n) BUS_EVENTS beh key arg b =
     run_callbacks (\<lambda>cb. call_callback n BUS_EVENTS beh cb arg)
       (case events b key of None \<Rightarrow> [] | Some cbs \<Rightarrow> cbs)
       (publish key arg b)"
| "call_callback 0 BUS_EVENTS beh cb arg b = None"
| "call_callback (Suc n) BUS_EVENTS beh (Direct l) arg b =
     invoke n BUS_EVENTS beh (Direct l) arg b"
| "call_callback (Suc n) BUS_EVENTS beh (Once c l) arg b =
     (case unbind_var b c of
        None \<Rightarrow> Some (b, None)
      | Some u0 \<Rightarrow>
          (case invoke n BUS_EVENTS beh (Once c l) arg b of
             None \<Rightarrow> None
           | Some (b1, Some e) \<Rightarrow> Some (b1, Some e)
           | Some (b1, None) \<Rightarrow>
               (case unbind_var b1 c of
                  None \<Rightarrow> Some (b1, Some (JErr (TypeError ''unbind is not a function'')))
                | Some u \<Rightarrow>
                    Some ((run_unbind u b1)\<lparr> unbind_var := (unbind_var b1)(c := None) \<rparr>,
                          None))))"
| "invoke 0 BUS_EVENTS beh cb arg b = None"
| "invoke (Suc n) BUS_EVENTS beh cb arg b =
     (let earlier = length (filter (\<lambda>(cb', a). target cb' = target cb) (calls b));
          b1 = b\<lparr> calls := calls b @ [(cb, arg)] \<rparr>
      in case beh (target cb) earlier of
           Returns \<Rightarrow> Some (b1, None)
         | Raises e \<Rightarrow> Some (b1, Some e)
         | Delivers name payload \<Rightarrow> handleEvent n BUS_EVENTS beh (name, payload) b1)"
| "handleEvent 0 BUS_EVENTS beh data b = None"
| "handleEvent (Suc n) BUS_EVENTS beh data b =
     (case data of (name, payload) \<Rightarrow>
        (case emit n BUS_EVENTS beh (BUS_EVENTS @ ''/'' @ name) (EventArg (Event name payload)) b of
           None \<Rightarrow> None
         | Some (b1, None) \<Rightarrow> Some (b1, None)
         | Some (b1, Some e) \<Rightarrow> emit n BUS_EVENTS beh ''error'' (EventArg (Event ''error'' e)) b1))"

  by pat_completeness auto

termination
  by (relation "measure (\<lambda>x. case x of
        Inl (Inl (n, r)) \<Rightarrow> n
      | Inl (Inr (n, r)) \<Rightarrow> n
      | Inr (Inl (n, r)) \<Rightarrow> n
      | Inr (Inr (n, r)) \<Rightarrow> n)") auto

text \<open>How often a callback has called its function.\<close>

definition invocations :: "callback \<Rightarrow> Bus \<Rightarrow> nat" where
  "invocations cb b = length (filter (\<lambda>(cb', a). cb' = cb) (calls b))"

text \<open>
  The numbers of the wrappers are given out in order: every wrapper registered on the
  bus has a number below the next one to be given out.
\<close>

definition fresh_wrappers :: "Bus \<Rightarrow> bool" where
  "fresh_wrappers b =
     (\<forall>key cbs. events b key = Some cbs \<longrightarrow> (\<forall>cb \<in> set cbs. \<forall>c l. cb = Once c l \<longrightarrow> c < wrappers b))"

text \<open>
  For the proofs about \<^verbatim>\<open>once\<close>: the callbacks registered on the bus; a callback that
  is not a wrapper with variable \<open>c\<close> unless it is the wrapper of \<open>h\<close>; and the state
  of that wrapper, which has called \<open>h\<close> \<open>k0\<close> times while its variable is set and once
  more from when the variable is unset.
\<close>

definition registered :: "Bus \<Rightarrow> callback set" where
  "registered b = {cb. \<exists>key cbs. events b key = Some cbs \<and> cb \<in> set cbs}"

definition own :: "nat \<Rightarrow> nat \<Rightarrow> callback \<Rightarrow> bool" where
  "own c h cb = (\<forall>l. cb = Once c l \<longrightarrow> l = h)"

definition once_inv :: "nat \<Rightarrow> nat \<Rightarrow> nat \<Rightarrow> Bus \<Rightarrow> bool" where
  "once_inv c h k0 b =
     ((\<forall>cb \<in> registered b. own c h cb)
      \<and> invocations (Once c h) b = (if unbind_var b c = None then Suc k0 else k0))"

section \<open>Example states\<close>

text \<open>
  Concrete states for the examples below: an object with every member the Transport
  asks for, a Socket built on it, the Socket opened on channel \<^verbatim>\<open>ch\<close>, and the
  open Socket with one request pending.
\<close>

definition example_io :: rawio where
  "example_io = \<lparr> has_on = True, has_once = True, has_removeAllListeners = True,
                   has_removeListener = True, has_send = True, send_raises = None \<rparr>"

definition example_socket :: Socket where
  "example_socket =
     projr (Socket_constructor (Some (Inr example_io)) \<lparr> timeout = Some 0, cleanup = Some 0 \<rparr>)"

definition example_open :: Socket where
  "example_open = after (Socket_open ''ch'' ''n1'' ''n2'' ''n3'' example_socket)"

definition example_pending :: Socket where
  "example_pending = snd (Socket_request ''p'' (JNum 3) ''r1'' 5 None example_open)"

definition example_transport :: "nat Transport" where
  "example_transport = projr (Transport_constructor (Some example_io) None)"

definition example_subscribed :: "nat Transport" where
  "example_subscribed = snd (projr (Transport_on ''c'' (Some 7) ''id1'' example_transport))"

text \<open>The open Socket on a Transport whose output raises on every \<^verbatim>\<open>send\<close>.\<close>

definition example_faulty :: Socket where
  "example_faulty = example_open\<lparr> transport := (transport example_open)\<lparr> output_raises := Some (JStr ''pipe closed'') \<rparr> \<rparr>"

text \<open>
  A bus with a listener (function 3) registered for the event \<^verbatim>\<open>tick\<close>, the same bus
  with function 7 registered for \<^verbatim>\<open>tick\<close> with \<^verbatim>\<open>once\<close>, and a new bus with only that
  registration. Three behaviours: function 3 delivers another \<^verbatim>\<open>tick\<close> the first time
  it is called; function 7 raises the first time it is called; function 7 delivers
  another \<^verbatim>\<open>tick\<close> the first time it is called.
\<close>

definition example_bus0 :: Bus where
  "example_bus0 = snd (Socket_onEvent ''0.17'' ''tick'' 3 False createNanoEvents)"

definition example_bus :: Bus where
  "example_bus = snd (Socket_onEvent ''0.17'' ''tick'' 7 True example_bus0)"

definition example_once :: Bus where
  "example_once = snd (Socket_onEvent ''0.17'' ''tick'' 7 True createNanoEvents)"

definition redelivering_other :: behaviour where
  "redelivering_other l k = (if l = 3 \<and> k = 0 then Delivers ''tick'' (JNum 9) else Returns)"

definition failing_handler :: behaviour where
  "failing_handler l k = (if l = 7 \<and> k = 0 then Raises (JErr (Error ''boom'')) else Returns)"

definition redelivering_handler :: behaviour where
  "redelivering_handler l k = (if l = 7 \<and> k = 0 then Delivers ''tick'' (JNum 9) else Returns)"

section \<open>Auxiliary facts\<close>

lemmas model_defs =
  Socket_constructor_def Transport_constructor_def Socket_open_def Socket_close_def
  Socket_send_def Socket_sendResponse_def Socket_handleRequest_def Socket_handleResponse_def
  Socket_request_def Socket_cleanup_def Transport_on_def Transport_send_def
  Transport_unsubscribe_def requires_def template_def publish_def hasHandler_def
  createNanoEvents_def or_default_def during_send_def reject_def resolve_def isDisposed_def
  start_def stop_def hanging_def expire_def Let_def

lemmas example_defs = example_io_def example_socket_def example_open_def example_pending_def

lemma example_pending_fields:
  "\<not> t_disposed (transport example_pending)"
  "output_raises (transport example_pending) = None"
  "t_output (transport example_pending) = [(''ch:requests'', [JStr ''p'', JStr ''r1'', JNum 3])]"
  "channel example_pending = Some ''ch''"
  "isOpen example_pending" "\<not> s_disposed example_pending"
  "pendingRequests example_pending = Some [(''r1'', \<lparr> req_id = ''r1'', timestamp = 5, cell = 0 \<rparr>)]"
  "settled example_pending = Map.empty"
  "emitted (bus example_pending) = [(''open'', EventArg (Event ''open'' Undefined))]"
  "requestTimeout example_pending = 60000"
  "allocated example_pending = 1"
  by (simp_all add: example_defs model_defs)

lemma example_open_fields:
  "\<not> t_disposed (transport example_open)"
  "output_raises (transport example_open) = None"
  "t_output (transport example_open) = []"
  "channel example_open = Some ''ch''"
  "isOpen example_open" "\<not> s_disposed example_open"
  "pendingRequests example_open = Some []"
  "events (bus example_open) = Map.empty"
  "timers example_open = []"
  by (simp_all add: example_defs model_defs)

lemma template_channel_nonempty: "template c @ suffix = [] \<longleftrightarrow> template c = [] \<and> suffix = []"
  by simp

lemma Transport_send_usable:
  assumes "\<not> t_disposed t" and "output_raises t = None" and "ch \<noteq> []"
  shows "Transport_send ch args t = (None, t\<lparr> t_output := t_output t @ [(ch, args)] \<rparr>)"
  using assms by (simp add: Transport_send_def requires_def)

lemma delete_lookup_same: "map_of (AList.delete k al) k = None"
  by (simp add: delete_conv')

lemma delete_lookup_other: "k' \<noteq> k \<Longrightarrow> map_of (AList.delete k al) k' = map_of al k'"
  by (simp add: delete_conv')

lemma example_transport_fields:
  "\<not> t_disposed example_transport" "listeners example_transport = Some []"
  "t_input example_transport = []" "closures example_transport = 0"
  by (simp_all add: example_transport_def example_io_def Transport_constructor_def)

lemma reject_keeps: "st c = Some x \<Longrightarrow> reject req e st c = Some x"
  by (auto simp add: reject_def isDisposed_def)

lemma reject_other: "c \<noteq> cell req \<Longrightarrow> reject req e st c = st c"
  by (simp add: reject_def isDisposed_def)

lemma reject_hit: "st (cell req) = None \<Longrightarrow> reject req e st (cell req) = Some (Rejected e)"
  by (simp add: reject_def isDisposed_def)

lemma reject_none_or: 
  "st c = None \<or> st c = Some (Rejected e) \<Longrightarrow> reject req e st c = None \<or> reject req e st c = Some (Rejected e)"
  by (auto simp add: reject_def isDisposed_def)

lemma reject_all_keeps:
  "st c = Some x \<Longrightarrow>
   fold (\<lambda>i st. case map_of requests i of None \<Rightarrow> st | Some req \<Rightarrow> reject req e st) ks st c = Some x"
  by (induction ks arbitrary: st) (auto simp add: reject_keeps split: option.splits)

lemma reject_all_hits:
  assumes "i \<in> set ks" and "map_of requests i = Some req"
    and "st (cell req) = None \<or> st (cell req) = Some (Rejected e)"
  shows "fold (\<lambda>i st. case map_of requests i of None \<Rightarrow> st | Some req \<Rightarrow> reject req e st) ks st (cell req)
           = Some (Rejected e)"
  using assms
proof (induction ks arbitrary: st)
  case Nil
  then show ?case by simp
next
  case (Cons k ks)
  let ?f = "\<lambda>i st. case map_of requests i of None \<Rightarrow> st | Some req \<Rightarrow> reject req e st"
  have step: "?f k st (cell req) = None \<or> ?f k st (cell req) = Some (Rejected e)"
    using Cons.prems(3) by (cases "map_of requests k") (simp_all add: reject_none_or)
  show ?case
  proof (cases "i = k")
    case True
    then have "?f k st (cell req) = Some (Rejected e)"
      using Cons.prems(2,3) by (auto simp add: reject_def isDisposed_def)
    then show ?thesis by (simp add: reject_all_keeps)
  next
    case False
    then have "i \<in> set ks" using Cons.prems(1) by simp
    from Cons.IH [of "?f k st", OF this Cons.prems(2) step] show ?thesis by simp
  qed
qed

lemma handleResponse_keeps_binding:
  "isOpen (Socket_handleResponse d s) = isOpen s"
  "channel (Socket_handleResponse d s) = channel s"
  "(pendingRequests (Socket_handleResponse d s) = None) = (pendingRequests s = None)"
  by (auto simp add: Socket_handleResponse_def Let_def split: option.splits prod.splits)

lemma during_send_keeps_isOpen: "isOpen (during_send reply path i s) = isOpen s"
  by (cases reply) (simp_all add: during_send_def handleResponse_keeps_binding split: prod.splits)

lemma during_send_keeps_channel: "channel (during_send reply path i s) = channel s"
  by (cases reply) (simp_all add: during_send_def handleResponse_keeps_binding split: prod.splits)

lemma during_send_keeps_set:
  "(pendingRequests (during_send reply path i s) = None) = (pendingRequests s = None)"
  by (cases reply) (simp_all add: during_send_def handleResponse_keeps_binding split: prod.splits)

lemma during_send_keeps_table:
  "pendingRequests s = Some y \<Longrightarrow> \<exists>z. pendingRequests (during_send reply path i s) = Some z"
  using during_send_keeps_set [of reply path i s] by auto

lemma request_keeps_binding:
  "isOpen (snd (Socket_request path payload nid now reply s)) = isOpen s"
  "channel (snd (Socket_request path payload nid now reply s)) = channel s"
  by (simp_all add: Socket_request_def Let_def during_send_keeps_isOpen during_send_keeps_channel
      split: option.splits prod.splits)

lemma request_keeps_table:
  assumes "pendingRequests s = Some y"
  shows "\<exists>z. pendingRequests (snd (Socket_request path payload nid now reply s)) = Some z"
proof -
  let ?s1 = "\<lambda>t. s\<lparr> allocated := Suc (allocated s), settled := (settled s)(allocated s := None),
                     pendingRequests := Some (AList.update nid
                        \<lparr> req_id = nid, timestamp = now, cell = allocated s \<rparr> y),
                     transport := t \<rparr>"
  have "\<And>t. \<exists>z. pendingRequests (during_send reply path nid (?s1 t)) = Some z"
    by (rule during_send_keeps_table) simp
  then show ?thesis
    using assms
    by (auto simp add: Socket_request_def Let_def split: option.splits prod.splits)
qed

lemma constructor_bound: "Socket_constructor tr settings = Inr s \<Longrightarrow> bound_while_open s"
  by (auto simp add: Socket_constructor_def bound_while_open_def split: option.splits sum.splits)

lemma open_bound: "bound_while_open s \<Longrightarrow> bound_while_open (after (Socket_open ch n1 n2 n3 s))"
  by (auto simp add: Socket_open_def bound_while_open_def split: sum.splits)

lemma close_bound: "bound_while_open s \<Longrightarrow> bound_while_open (after (Socket_close s))"
  by (auto simp add: Socket_close_def bound_while_open_def Let_def split: option.splits)

lemma send_bound: "bound_while_open s \<Longrightarrow> bound_while_open (after (Socket_send ev payload s))"
  by (auto simp add: Socket_send_def bound_while_open_def split: option.splits prod.splits)

lemma request_bound:
  "bound_while_open s \<Longrightarrow> bound_while_open (snd (Socket_request path payload nid now reply s))"
  using request_keeps_table [of s _ path payload nid now reply]
  by (auto simp add: bound_while_open_def request_keeps_binding)

lemma perform_bound: "bound_while_open s \<Longrightarrow> bound_while_open (perform op s)"
  by (cases op) (simp_all add: open_bound close_bound send_bound request_bound)

lemma run_bound: "bound_while_open s \<Longrightarrow> bound_while_open (fold perform ops s)"
  by (induction ops arbitrary: s) (simp_all add: perform_bound)

lemma example_socket_constructed:
  "Socket_constructor (Some (Inr example_io)) \<lparr> timeout = Some 0, cleanup = Some 0 \<rparr> = Inr example_socket"
  by (simp add: example_socket_def Socket_constructor_def Transport_constructor_def example_io_def)

lemma example_faulty_fields:
  "\<not> s_disposed example_faulty" "isOpen example_faulty"
  "pendingRequests example_faulty = Some []"
  "channel example_faulty = Some ''ch''"
  "\<not> t_disposed (transport example_faulty)"
  "output_raises (transport example_faulty) = Some (JStr ''pipe closed'')"
  "emitted (bus example_faulty) = [(''open'', EventArg (Event ''open'' Undefined))]"
  "allocated example_faulty = 0"
  by (simp_all add: example_faulty_def example_open_fields) (simp_all add: example_defs model_defs)

lemma request_raised:
  assumes "\<not> s_disposed s" and "isOpen s" and "path \<noteq> []"
    and "pendingRequests s = Some requests"
    and "Transport_send (template (channel s) @ '':requests'') [JStr path, JStr nid, payload]
               (transport s) = (Some e, t)"
  shows "Socket_request path payload nid now reply s =
     (let req = \<lparr> req_id = nid, timestamp = now, cell = allocated s \<rparr>;
          s2 = during_send reply path nid
                 (s\<lparr> allocated := Suc (allocated s), settled := (settled s)(allocated s := None),
                     pendingRequests := Some (AList.update nid req requests), transport := t \<rparr>);
          s3 = (if \<not> isDisposed req (settled s2)
                then s2\<lparr> settled := reject req (UnhandledExceptionError e) (settled s2),
                        pendingRequests := map_option (AList.delete nid) (pendingRequests s2) \<rparr>
                else s2)
      in (Future (allocated s),
          s3\<lparr> bus := publish ''error'' (EventArg (Event ''error'' e)) (bus s3) \<rparr>))"
  using assms by (simp add: Socket_request_def requires_def Let_def)

lemma hanging_entries:
  assumes "distinct (map fst requests)"
  shows "hanging now to requests = map snd (filter (\<lambda>(k, r). now - timestamp r > to) requests)"
proof -
  have "\<And>xs. set xs \<subseteq> set requests \<Longrightarrow>
      List.map_filter (\<lambda>i. case map_of requests i of None \<Rightarrow> None
          | Some request \<Rightarrow> if now - timestamp request > to then Some request else None)
        (map fst xs)
      = map snd (filter (\<lambda>(k, r). now - timestamp r > to) xs)"
  proof -
    fix xs show "set xs \<subseteq> set requests \<Longrightarrow>
      List.map_filter (\<lambda>i. case map_of requests i of None \<Rightarrow> None
          | Some request \<Rightarrow> if now - timestamp request > to then Some request else None)
        (map fst xs)
      = map snd (filter (\<lambda>(k, r). now - timestamp r > to) xs)"
    proof (induction xs)
      case Nil
      then show ?case by (simp add: List.map_filter_def)
    next
      case (Cons x xs)
      obtain k r where x: "x = (k, r)" by (cases x)
      with Cons.prems have "(k, r) \<in> set requests" by simp
      with assms have "map_of requests k = Some r" by simp
      with Cons x show ?case by (simp add: List.map_filter_def)
    qed
  qed
  then show ?thesis by (simp add: hanging_def)
qed

lemma expire_all_table:
  "pendingRequests (fold expire rs s)
     = map_option (filter (\<lambda>(k, r). k \<notin> req_id ` set rs)) (pendingRequests s)"
proof (induction rs arbitrary: s)
  case Nil
  then show ?case by (simp add: option.map_ident)
next
  case (Cons a rs)
  have f: "\<And>xs. filter (\<lambda>(k, r). k \<notin> req_id ` set rs) (AList.delete (req_id a) xs)
            = filter (\<lambda>(k, r). k \<notin> req_id ` set (a # rs)) xs"
    by (auto simp add: AList.delete_eq intro!: filter_cong)
  have "pendingRequests (fold expire (a # rs) s)
          = map_option (filter (\<lambda>(k, r). k \<notin> req_id ` set rs)) (pendingRequests (expire a s))"
    using Cons.IH [of "expire a s"] by simp
  also have "\<dots> = map_option (filter (\<lambda>(k, r). k \<notin> req_id ` set (a # rs))) (pendingRequests s)"
    by (cases "pendingRequests s") (simp_all add: expire_def f del: set_simps)
  finally show ?case .
qed

lemma expire_all_timeout: "requestTimeout (fold expire rs s) = requestTimeout s"
  by (induction rs arbitrary: s) (simp_all add: expire_def)

lemma expire_all_other: "c \<notin> cell ` set rs \<Longrightarrow> settled (fold expire rs s) c = settled s c"
  by (induction rs arbitrary: s) (simp_all add: expire_def reject_other)

lemma expire_all_keeps_none_or:
  "settled s c = None \<or> settled s c = Some (Rejected TimeoutError) \<Longrightarrow>
   settled (expire a s) c = None \<or> settled (expire a s) c = Some (Rejected TimeoutError)"
  by (simp add: expire_def reject_none_or)

lemma expire_all_keeps: "settled s c = Some x \<Longrightarrow> settled (fold expire rs s) c = Some x"
  by (induction rs arbitrary: s) (simp_all add: expire_def reject_keeps)

lemma expire_all_hits:
  assumes "r \<in> set rs"
    and "settled s (cell r) = None \<or> settled s (cell r) = Some (Rejected TimeoutError)"
  shows "settled (fold expire rs s) (cell r) = Some (Rejected TimeoutError)"
  using assms
proof (induction rs arbitrary: s)
  case Nil
  then show ?case by simp
next
  case (Cons a rs)
  show ?case
  proof (cases "r = a")
    case True
    have "settled (expire a s) (cell a) = Some (Rejected TimeoutError)"
      using Cons.prems(2) True by (auto simp add: expire_def reject_def isDisposed_def)
    with True show ?thesis by (simp add: expire_all_keeps)
  next
    case False
    with Cons.prems(1) have "r \<in> set rs" by simp
    from Cons.IH [OF this expire_all_keeps_none_or [OF Cons.prems(2)]]
    show ?thesis by simp
  qed
qed

lemma well_keyed_lookup: "well_keyed requests \<Longrightarrow> (k, r) \<in> set requests \<Longrightarrow> map_of requests k = Some r"
  by (simp add: well_keyed_def)

lemma well_keyed_member: "well_keyed requests \<Longrightarrow> map_of requests k = Some r \<Longrightarrow> (k, r) \<in> set requests"
  by (simp add: map_of_SomeD)

lemma well_keyed_same_key:
  assumes "well_keyed requests" and "(k, r) \<in> set requests" and "(k', r') \<in> set requests"
    and "req_id r' = k"
  shows "r' = r"
proof -
  from assms(1) have d: "distinct (map fst requests)" by (simp add: well_keyed_def)
  from assms(1,3) have "req_id r' = k'" by (auto simp add: well_keyed_def)
  with assms(4) have "k' = k" by simp
  with assms(3) have "(k, r') \<in> set requests" by simp
  from map_of_is_SomeI [OF d this] map_of_is_SomeI [OF d assms(2)] show ?thesis by simp
qed

lemma well_keyed_same_cell:
  assumes "well_keyed requests" and "(k, r) \<in> set requests" and "(k', r') \<in> set requests"
    and "cell r' = cell r"
  shows "r' = r"
proof -
  from assms(1) have "inj_on (\<lambda>(k, r). cell r) (set requests)"
    by (simp add: well_keyed_def distinct_map)
  from inj_onD [OF this, of "(k', r')" "(k, r)"] assms show ?thesis by simp
qed

lemma well_keyed_filter: "well_keyed requests \<Longrightarrow> well_keyed (filter P requests)"
  by (auto simp add: well_keyed_def distinct_map_filter)

lemma cleanup_table:
  assumes "pendingRequests s = Some requests" and "well_keyed requests"
  shows "pendingRequests (Socket_cleanup now s)
           = Some (filter (\<lambda>(k, r). \<not> now - timestamp r > requestTimeout s) requests)"
proof -
  let ?od = "\<lambda>(k::string, r). now - timestamp r > requestTimeout s"
  have d: "distinct (map fst requests)" using assms(2) by (simp add: well_keyed_def)
  have "\<And>k r. (k, r) \<in> set requests \<Longrightarrow>
      (k \<notin> req_id ` set (map snd (filter ?od requests))) = (\<not> now - timestamp r > requestTimeout s)"
  proof -
    fix k r assume m: "(k, r) \<in> set requests"
    then have id: "req_id r = k" using assms(2) by (auto simp add: well_keyed_def)
    show "(k \<notin> req_id ` set (map snd (filter ?od requests))) = (\<not> now - timestamp r > requestTimeout s)"
    proof
      assume a: "k \<notin> req_id ` set (map snd (filter ?od requests))"
      show "\<not> now - timestamp r > requestTimeout s"
      proof
        assume "now - timestamp r > requestTimeout s"
        with m have "r \<in> set (map snd (filter ?od requests))" by force
        with id a show False by force
      qed
    next
      assume b: "\<not> now - timestamp r > requestTimeout s"
      show "k \<notin> req_id ` set (map snd (filter ?od requests))"
      proof
        assume "k \<in> req_id ` set (map snd (filter ?od requests))"
        then obtain k' r' where o: "(k', r') \<in> set requests" "now - timestamp r' > requestTimeout s"
          "req_id r' = k" by auto
        from well_keyed_same_key [OF assms(2) m o(1) o(3)] o(2) b show False by simp
      qed
    qed
  qed
  then have "filter (\<lambda>(k, r). k \<notin> req_id ` set (map snd (filter ?od requests))) requests
      = filter (\<lambda>(k, r). \<not> now - timestamp r > requestTimeout s) requests"
    by (intro filter_cong) auto
  then show ?thesis
    using assms(1) by (simp add: Socket_cleanup_def hanging_entries [OF d] expire_all_table)
qed

lemma cleanup_rejects:
  assumes "pendingRequests s = Some requests" and "well_keyed requests"
    and "(k, r) \<in> set requests" and "now - timestamp r > requestTimeout s"
    and "settled s (cell r) = None"
  shows "settled (Socket_cleanup now s) (cell r) = Some (Rejected TimeoutError)"
proof -
  have d: "distinct (map fst requests)" using assms(2) by (simp add: well_keyed_def)
  have "r \<in> set (hanging now (requestTimeout s) requests)"
    using assms(3,4) by (force simp add: hanging_entries [OF d])
  from expire_all_hits [OF this] assms(1,5) show ?thesis
    by (simp add: Socket_cleanup_def)
qed

lemma cleanup_spares:
  assumes "pendingRequests s = Some requests" and "well_keyed requests"
    and "(k, r) \<in> set requests" and "\<not> now - timestamp r > requestTimeout s"
  shows "settled (Socket_cleanup now s) (cell r) = settled s (cell r)"
proof -
  have d: "distinct (map fst requests)" using assms(2) by (simp add: well_keyed_def)
  have "cell r \<notin> cell ` set (hanging now (requestTimeout s) requests)"
  proof
    assume "cell r \<in> cell ` set (hanging now (requestTimeout s) requests)"
    then obtain k' r' where o: "(k', r') \<in> set requests" "now - timestamp r' > requestTimeout s"
      "cell r' = cell r" by (auto simp add: hanging_entries [OF d])
    from well_keyed_same_cell [OF assms(2,3) o(1) o(3)] o(2) assms(4) show False by simp
  qed
  from expire_all_other [OF this] assms(1) show ?thesis
    by (simp add: Socket_cleanup_def)
qed

lemma cleanup_timeout: "requestTimeout (Socket_cleanup now s) = requestTimeout s"
  by (simp add: Socket_cleanup_def expire_all_timeout split: option.splits)


lemma cleanup_removes:
  assumes "pendingRequests s = Some requests" and "well_keyed requests"
    and "(k, r) \<in> set requests" and "now - timestamp r > requestTimeout s"
  shows "\<exists>tbl. pendingRequests (Socket_cleanup now s) = Some tbl \<and> map_of tbl k = None"
proof -
  let ?tbl = "filter (\<lambda>(k, r). \<not> now - timestamp r > requestTimeout s) requests"
  have "k \<notin> fst ` set ?tbl"
  proof
    assume "k \<in> fst ` set ?tbl"
    then obtain r' where o: "(k, r') \<in> set requests" "\<not> now - timestamp r' > requestTimeout s"
      by auto
    from assms(2) have "distinct (map fst requests)" by (simp add: well_keyed_def)
    from map_of_is_SomeI [OF this o(1)] map_of_is_SomeI [OF this assms(3)] have "r' = r" by simp
    with o(2) assms(4) show False by simp
  qed
  then have "map_of ?tbl k = None" by (simp add: map_of_eq_None_iff)
  with cleanup_table [OF assms(1,2)] show ?thesis by simp
qed

lemma sweeps_reject_within:
  assumes "pendingRequests s = Some requests" and "well_keyed requests"
    and "(k, r) \<in> set requests" and "settled s (cell r) = None"
    and "schedule period prev ticks" and "prev - timestamp r \<le> requestTimeout s"
    and "\<exists>t \<in> set ticks. requestTimeout s < t - timestamp r"
  shows "\<exists>before T rest. ticks = before @ T # rest
           \<and> (\<exists>tbl. pendingRequests (sweeps before s) = Some tbl \<and> map_of tbl k = Some r)
           \<and> settled (sweeps before s) (cell r) = None
           \<and> requestTimeout s < T - timestamp r
           \<and> T - timestamp r \<le> requestTimeout s + period
           \<and> settled (sweeps (before @ [T]) s) (cell r) = Some (Rejected TimeoutError)
           \<and> (\<exists>tbl. pendingRequests (sweeps (before @ [T]) s) = Some tbl \<and> map_of tbl k = None)"
  using assms
proof (induction ticks arbitrary: prev s requests)
  case Nil
  then show ?case by simp
next
  case (Cons t ts)
  from Cons.prems(5) have sch: "prev < t" "t \<le> prev + period" "schedule period t ts" by simp_all
  show ?case
  proof (cases "requestTimeout s < t - timestamp r")
    case True
    have a: "\<exists>tbl. pendingRequests (sweeps [] s) = Some tbl \<and> map_of tbl k = Some r"
      using Cons.prems(1) well_keyed_lookup [OF Cons.prems(2,3)] by (simp add: sweeps_def)
    have b: "settled (sweeps [] s) (cell r) = None"
      using Cons.prems(4) by (simp add: sweeps_def)
    have c: "t - timestamp r \<le> requestTimeout s + period"
      using sch(2) Cons.prems(6) by arith
    have d: "settled (sweeps ([] @ [t]) s) (cell r) = Some (Rejected TimeoutError)"
      using cleanup_rejects [OF Cons.prems(1,2,3) True Cons.prems(4)] by (simp add: sweeps_def)
    have e: "\<exists>tbl. pendingRequests (sweeps ([] @ [t]) s) = Some tbl \<and> map_of tbl k = None"
      using cleanup_removes [OF Cons.prems(1,2,3) True] by (simp add: sweeps_def)
    have "t # ts = [] @ t # ts" by simp
    with a b c d e True show ?thesis by blast
  next
    case False
    let ?s1 = "Socket_cleanup t s"
    let ?tbl = "filter (\<lambda>(k, r). \<not> t - timestamp r > requestTimeout s) requests"
    have p1: "pendingRequests ?s1 = Some ?tbl" by (rule cleanup_table [OF Cons.prems(1,2)])
    have p2: "well_keyed ?tbl" by (rule well_keyed_filter [OF Cons.prems(2)])
    have p3: "(k, r) \<in> set ?tbl" using Cons.prems(3) False by simp
    have p4: "settled ?s1 (cell r) = None"
      using cleanup_spares [OF Cons.prems(1,2,3) False] Cons.prems(4) by simp
    have to: "requestTimeout ?s1 = requestTimeout s" by (rule cleanup_timeout)
    have p6: "t - timestamp r \<le> requestTimeout ?s1" using False to by simp
    have p7: "\<exists>u \<in> set ts. requestTimeout ?s1 < u - timestamp r"
      using Cons.prems(7) False to by auto
    from Cons.IH [OF p1 p2 p3 p4 sch(3) p6 p7]
    obtain before T rest where ih: "ts = before @ T # rest"
      "\<exists>tbl. pendingRequests (sweeps before ?s1) = Some tbl \<and> map_of tbl k = Some r"
      "settled (sweeps before ?s1) (cell r) = None"
      "requestTimeout ?s1 < T - timestamp r"
      "T - timestamp r \<le> requestTimeout ?s1 + period"
      "settled (sweeps (before @ [T]) ?s1) (cell r) = Some (Rejected TimeoutError)"
      "\<exists>tbl. pendingRequests (sweeps (before @ [T]) ?s1) = Some tbl \<and> map_of tbl k = None"
      by blast
    have sw: "\<And>xs. sweeps (t # xs) s = sweeps xs ?s1" by (simp add: sweeps_def)
    have "t # ts = (t # before) @ T # rest" using ih(1) by simp
    moreover have "\<exists>tbl. pendingRequests (sweeps (t # before) s) = Some tbl \<and> map_of tbl k = Some r"
      using ih(2) by (simp only: sw)
    moreover have "settled (sweeps (t # before) s) (cell r) = None"
      using ih(3) by (simp only: sw)
    moreover have "requestTimeout s < T - timestamp r" using ih(4) to by simp
    moreover have "T - timestamp r \<le> requestTimeout s + period" using ih(5) to by simp
    moreover have "settled (sweeps ((t # before) @ [T]) s) (cell r) = Some (Rejected TimeoutError)"
      using ih(6) by (simp add: sw)
    moreover have "\<exists>tbl. pendingRequests (sweeps ((t # before) @ [T]) s) = Some tbl \<and> map_of tbl k = None"
      using ih(7) by (simp add: sw)
    ultimately show ?thesis by blast
  qed
qed

section \<open>C1: closing with requests outstanding\<close>

text \<open>
  Claim C1, as stated, ends with: after \<^verbatim>\<open>close()\<close> returns the pending-request table
  is empty. \<^verbatim>\<open>close()\<close> rejects the requests and leaves the table as it is; the next
  \<^verbatim>\<open>open()\<close> replaces it by a new one. Amended claim: for every open Socket, \<^verbatim>\<open>close()\<close>
  returns with the Socket closed and with every outstanding request of the pending table
  rejected with a ConnectionLost error; the rejections are made within \<^verbatim>\<open>close()\<close>, so
  they are in the state it returns. (What the table holds after \<^verbatim>\<open>close()\<close> is left
  out of the amended claim.)
\<close>

theorem close_rejects_all:
  assumes "\<not> s_disposed s" and "isOpen s" and "pendingRequests s = Some requests"
  shows "\<exists>s'. Socket_close s = Inr s' \<and> \<not> isOpen s'
           \<and> (\<forall>i req. map_of requests i = Some req \<longrightarrow> settled s (cell req) = None \<longrightarrow>
                 settled s' (cell req) = Some (Rejected ConnectionLostError))"
proof -
  have keys: "\<And>i req. map_of requests i = Some req \<Longrightarrow> i \<in> set (map fst requests)"
    by (metis map_of_eq_None_iff option.distinct(1) set_map)
  show ?thesis
    using assms
    by (auto simp add: Socket_close_def Let_def split: option.splits
        intro!: reject_all_hits keys)
qed

theorem close_rejects_all_witness:
  "\<exists>s'. Socket_close example_pending = Inr s' \<and> \<not> isOpen s'
        \<and> settled s' 0 = Some (Rejected ConnectionLostError)"
proof -
  from close_rejects_all [OF example_pending_fields(6) example_pending_fields(5) example_pending_fields(7)]
  obtain s' where c: "Socket_close example_pending = Inr s'" "\<not> isOpen s'"
    and r: "\<And>i req. map_of [(''r1'', \<lparr> req_id = ''r1'', timestamp = 5, cell = 0 \<rparr>)] i = Some req
              \<Longrightarrow> settled example_pending (cell req) = None
              \<Longrightarrow> settled s' (cell req) = Some (Rejected ConnectionLostError)"
    by blast
  have "settled s' (cell \<lparr> req_id = ''r1'', timestamp = 5, cell = 0 \<rparr>) = Some (Rejected ConnectionLostError)"
    by (rule r [of "''r1''"]) (simp_all add: example_pending_fields)
  with c show ?thesis by simp
qed

text \<open>
  The claim as stated fails: closing the Socket that has the one request \<^verbatim>\<open>r1\<close> pending
  leaves that entry in the table.
\<close>

theorem close_empties_table_counterexample:
  "pendingRequests (after (Socket_close example_pending))
     = Some [(''r1'', \<lparr> req_id = ''r1'', timestamp = 5, cell = 0 \<rparr>)]"
  by (simp add: Socket_close_def example_pending_fields Let_def split: option.splits)

section \<open>C2: channel and pending table against isOpen\<close>

text \<open>
  Claim C2, as stated, says that after every public operation \<open>channel\<close> and
  \<open>pendingRequests\<close> are both set or both unset, and set exactly when \<open>isOpen\<close> is
  true. \<^verbatim>\<open>close()\<close> unsets \<open>channel\<close> and leaves \<open>pendingRequests\<close> as it is. Amended
  claim: for every Socket instance and after every sequence of the public operations
  \<^verbatim>\<open>open\<close>, \<^verbatim>\<open>close\<close>, \<^verbatim>\<open>send\<close> and \<^verbatim>\<open>request\<close>, whether they return or raise, \<open>channel\<close>
  is set exactly when \<open>isOpen\<close> is true, and \<open>pendingRequests\<close> is set whenever
  \<open>isOpen\<close> is true. (Whether \<open>pendingRequests\<close> is set while the Socket is closed is
  left out of the amended claim.)
\<close>

theorem channel_bound_while_open:
  assumes "Socket_constructor tr settings = Inr s"
  shows "bound_while_open (fold perform ops s)"
  using assms by (simp add: constructor_bound run_bound)

theorem channel_bound_while_open_witness:
  "bound_while_open (fold perform [Open ''ch'' ''n1'' ''n2'' ''n3'', Request ''p'' (JNum 3) ''r1'' 5 None, Close] example_socket)"
  using channel_bound_while_open [OF example_socket_constructed] .

text \<open>
  The claim as stated fails: after \<^verbatim>\<open>open\<close> and \<^verbatim>\<open>close\<close> on a new Socket, \<open>isOpen\<close> is
  false and \<open>channel\<close> is unset, and \<open>pendingRequests\<close> is still set.
\<close>

theorem lockstep_counterexample:
  "\<not> lockstep (fold perform [Open ''ch'' ''n1'' ''n2'' ''n3'', Close] example_socket)"
proof -
  have "fold perform [Open ''ch'' ''n1'' ''n2'' ''n3'', Close] example_socket
          = after (Socket_close example_open)"
    by (simp add: example_open_def)
  moreover have "pendingRequests (after (Socket_close example_open)) = Some []"
    and "\<not> isOpen (after (Socket_close example_open))"
    by (simp_all add: Socket_close_def example_open_fields Let_def split: option.splits)
  ultimately show ?thesis by (simp add: lockstep_def)
qed

section \<open>C3: the sweep\<close>

text \<open>
  Claim C3. On a tick of the sweep at time \<open>now\<close>, over the pending table of an open
  Socket, the entries that stay in the table are exactly those whose age, \<open>now\<close> minus
  the timestamp of the request, does not exceed \<open>requestTimeout\<close>; every outstanding
  request whose age exceeds it is rejected with a Timeout error and its entry is
  removed; the others are left as they are. So, with the ticks no more than one period
  (\<^verbatim>\<open>cleanup\<close>) apart and going on long enough, a request created after the tick before,
  to which no response arrives, is rejected at a tick \<open>T\<close> where its age is more than
  the timeout and at most the timeout plus the period; at all ticks before \<open>T\<close> it is
  still pending. The timeout is taken to be non-negative.
\<close>

theorem cleanup_expires_overdue:
  assumes "pendingRequests s = Some requests" and "well_keyed requests"
  shows "pendingRequests (Socket_cleanup now s)
           = Some (filter (\<lambda>(k, r). \<not> now - timestamp r > requestTimeout s) requests)
       \<and> (\<forall>(k, r) \<in> set requests. now - timestamp r > requestTimeout s \<longrightarrow>
             settled s (cell r) = None \<longrightarrow>
             settled (Socket_cleanup now s) (cell r) = Some (Rejected TimeoutError))
       \<and> (\<forall>(k, r) \<in> set requests. \<not> now - timestamp r > requestTimeout s \<longrightarrow>
             settled (Socket_cleanup now s) (cell r) = settled s (cell r))
       \<and> (\<forall>k r period prev ticks.
             (k, r) \<in> set requests \<longrightarrow> settled s (cell r) = None \<longrightarrow>
             0 \<le> requestTimeout s \<longrightarrow> prev \<le> timestamp r \<longrightarrow> schedule period prev ticks \<longrightarrow>
             (\<exists>t \<in> set ticks. requestTimeout s < t - timestamp r) \<longrightarrow>
             (\<exists>before T rest. ticks = before @ T # rest
                \<and> (\<exists>tbl. pendingRequests (sweeps before s) = Some tbl \<and> map_of tbl k = Some r)
                \<and> settled (sweeps before s) (cell r) = None
                \<and> requestTimeout s < T - timestamp r
                \<and> T - timestamp r \<le> requestTimeout s + period
                \<and> settled (sweeps (before @ [T]) s) (cell r) = Some (Rejected TimeoutError)
                \<and> (\<exists>tbl. pendingRequests (sweeps (before @ [T]) s) = Some tbl
                       \<and> map_of tbl k = None)))"
proof (intro conjI allI impI ballI)
  show "pendingRequests (Socket_cleanup now s)
           = Some (filter (\<lambda>(k, r). \<not> now - timestamp r > requestTimeout s) requests)"
    by (rule cleanup_table [OF assms])
next
  fix x assume "x \<in> set requests"
  then show "case x of (k, r) \<Rightarrow> now - timestamp r > requestTimeout s \<longrightarrow>
             settled s (cell r) = None \<longrightarrow>
             settled (Socket_cleanup now s) (cell r) = Some (Rejected TimeoutError)"
    using cleanup_rejects [OF assms] by (cases x) auto
next
  fix x assume "x \<in> set requests"
  then show "case x of (k, r) \<Rightarrow> \<not> now - timestamp r > requestTimeout s \<longrightarrow>
             settled (Socket_cleanup now s) (cell r) = settled s (cell r)"
    using cleanup_spares [OF assms] by (cases x) auto
next
  fix k r period prev ticks
  assume h: "(k, r) \<in> set requests" "settled s (cell r) = None" "0 \<le> requestTimeout s"
    "prev \<le> timestamp r" "schedule period prev ticks"
    "\<exists>t \<in> set ticks. requestTimeout s < t - timestamp r"
  from h(3,4) have "prev - timestamp r \<le> requestTimeout s" by arith
  from sweeps_reject_within [OF assms h(1,2,5) this h(6)]
  show "\<exists>before T rest. ticks = before @ T # rest
                \<and> (\<exists>tbl. pendingRequests (sweeps before s) = Some tbl \<and> map_of tbl k = Some r)
                \<and> settled (sweeps before s) (cell r) = None
                \<and> requestTimeout s < T - timestamp r
                \<and> T - timestamp r \<le> requestTimeout s + period
                \<and> settled (sweeps (before @ [T]) s) (cell r) = Some (Rejected TimeoutError)
                \<and> (\<exists>tbl. pendingRequests (sweeps (before @ [T]) s) = Some tbl
                       \<and> map_of tbl k = None)" .
qed


theorem cleanup_expires_overdue_witness:
  "pendingRequests (Socket_cleanup 70000 example_pending) = Some []
   \<and> settled (Socket_cleanup 70000 example_pending) 0 = Some (Rejected TimeoutError)
   \<and> settled (Socket_cleanup 60000 example_pending) 0 = None
   \<and> (\<exists>before T rest. [60000, 120000] = before @ T # rest
          \<and> 60000 < T - 5 \<and> T - 5 \<le> 60000 + 60000
          \<and> settled (sweeps before example_pending) 0 = None
          \<and> settled (sweeps (before @ [T]) example_pending) 0 = Some (Rejected TimeoutError))"
proof -
  let ?r = "\<lparr> req_id = ''r1'', timestamp = 5, cell = 0 \<rparr>"
  have wk: "well_keyed [(''r1'', ?r)]" by (simp add: well_keyed_def)
  note th = cleanup_expires_overdue [OF example_pending_fields(7) wk]
  have a: "pendingRequests (Socket_cleanup 70000 example_pending) = Some []"
    using th [of 70000, THEN conjunct1] by (simp add: example_pending_fields)
  have b: "settled (Socket_cleanup 70000 example_pending) 0 = Some (Rejected TimeoutError)"
    using th [of 70000, THEN conjunct2, THEN conjunct1] by (simp add: example_pending_fields)
  have c: "settled (Socket_cleanup 60000 example_pending) 0 = None"
    using th [of 60000, THEN conjunct2, THEN conjunct2, THEN conjunct1]
    by (simp add: example_pending_fields)
  have sch: "schedule 60000 0 [60000, 120000]" by simp
  have d: "\<exists>before T rest. [60000, 120000] = before @ T # rest
          \<and> 60000 < T - 5 \<and> T - 5 \<le> 60000 + 60000
          \<and> settled (sweeps before example_pending) 0 = None
          \<and> settled (sweeps (before @ [T]) example_pending) 0 = Some (Rejected TimeoutError)"
    using th [of 0, THEN conjunct2, THEN conjunct2, THEN conjunct2, rule_format,
        of "''r1''" ?r 0 60000 "[60000, 120000]"] sch
    by (simp add: example_pending_fields) blast
  from a b c d show ?thesis by blast
qed

section \<open>C4: a request with no handler\<close>

text \<open>
  Claim C4. When a message \<^verbatim>\<open>(path, id, payload)\<close> arrives on the requests sub-channel
  and no handler is registered on the bus for that path, \<^verbatim>\<open>__handleRequest\<close> sends, within
  the same call, exactly one response on the responses sub-channel: it carries the path,
  the id, the message text of \<^verbatim>\<open>new NotFoundError(path)\<close> and \<^verbatim>\<open>null\<close>. The error object
  itself, whose field is the path, is what the deferred \<^verbatim>\<open>error\<close> emission carries, and
  nothing is emitted on the bus in that call. The Transport is taken to be usable.
\<close>

theorem handleRequest_not_found:
  assumes "\<not> hasHandler (BUS_REQUESTS @ ''/'' @ path) (bus s)"
    and "\<not> t_disposed (transport s)" and "output_raises (transport s) = None"
  shows "\<exists>s'. Socket_handleRequest msg BUS_REQUESTS (path, i, payload) s = Inr s'
           \<and> t_output (transport s') = t_output (transport s) @
                [(template (channel s) @ '':responses'',
                  [JStr path, JStr i, JStr (message msg (NotFoundError path)), Null])]
           \<and> timers s' = timers s @ [(''error'', EventArg (Event ''error'' (JErr (NotFoundError path))))]
           \<and> emitted (bus s') = emitted (bus s)"
  using assms
  by (simp add: Socket_handleRequest_def Socket_sendResponse_def Transport_send_usable)


theorem handleRequest_not_found_witness:
  "\<exists>s'. Socket_handleRequest (\<lambda>e. ''not found'') ''0.42'' (''p'', ''i1'', JNum 3) example_open = Inr s'
        \<and> t_output (transport s') = [(''ch:responses'', [JStr ''p'', JStr ''i1'', JStr ''not found'', Null])]
        \<and> timers s' = [(''error'', EventArg (Event ''error'' (JErr (NotFoundError ''p''))))]"
proof -
  have h: "\<not> hasHandler (''0.42'' @ ''/'' @ ''p'') (bus example_open)"
    by (simp add: hasHandler_def example_open_fields)
  from handleRequest_not_found [OF h example_open_fields(1) example_open_fields(2),
      of "\<lambda>e. ''not found''" "''i1''" "JNum 3"]
  show ?thesis by (auto simp add: example_open_fields template_def)
qed

section \<open>C5: a message on the responses sub-channel\<close>

text \<open>
  Claim C5. Let \<^verbatim>\<open>(path, id, error, payload)\<close> arrive on the responses sub-channel of an
  open Socket. If the id is in the pending table, the outstanding request under it is
  rejected when the error field is present, that is truthy as \<^verbatim>\<open>if (err)\<close> tests it:
  with the value itself when it is an Error object, with \<^verbatim>\<open>new Error(err.toString())\<close>
  otherwise; it is resolved with the payload when the error field is not present; the
  entry is removed in both cases and no other entry changes. If the id is not in the
  table, the table and the store of requests stay as they are, and one \<^verbatim>\<open>error\<close> event
  carrying \<^verbatim>\<open>new Error('Redundant request handler')\<close> is emitted on the bus.
\<close>

theorem handleResponse_settles:
  assumes "pendingRequests s = Some requests"
  shows "(\<forall>request. map_of requests i = Some request \<longrightarrow> settled s (cell request) = None \<longrightarrow>
            settled (Socket_handleResponse (path, i, err, payload) s) (cell request)
              = Some (if truthy err then Rejected (rejection err) else Resolved payload)
          \<and> pendingRequests (Socket_handleResponse (path, i, err, payload) s)
              = Some (AList.delete i requests)
          \<and> map_of (AList.delete i requests) i = None
          \<and> (\<forall>k. k \<noteq> i \<longrightarrow> map_of (AList.delete i requests) k = map_of requests k))
       \<and> (map_of requests i = None \<longrightarrow>
            pendingRequests (Socket_handleResponse (path, i, err, payload) s) = Some requests
          \<and> settled (Socket_handleResponse (path, i, err, payload) s) = settled s
          \<and> emitted (bus (Socket_handleResponse (path, i, err, payload) s))
              = emitted (bus s) @
                [(''error'', EventArg (Event ''error'' (JErr (Error ''Redundant request handler''))))])
       \<and> rejection (JErr e) = e \<and> rejection (JStr m) = Error m"
  using assms
  by (simp add: Socket_handleResponse_def reject_def resolve_def isDisposed_def publish_def
      delete_lookup_same delete_lookup_other)

theorem handleResponse_settles_witness:
  "settled (Socket_handleResponse (''p'', ''r1'', JStr ''boom'', Null) example_pending) 0
     = Some (Rejected (Error ''boom''))
   \<and> pendingRequests (Socket_handleResponse (''p'', ''r1'', JStr ''boom'', Null) example_pending) = Some []
   \<and> settled (Socket_handleResponse (''p'', ''r1'', Null, JNum 9) example_pending) 0
     = Some (Resolved (JNum 9))
   \<and> emitted (bus (Socket_handleResponse (''p'', ''zz'', Null, JNum 9) example_pending))
     = [(''open'', EventArg (Event ''open'' Undefined)),
        (''error'', EventArg (Event ''error'' (JErr (Error ''Redundant request handler''))))]
   \<and> pendingRequests (Socket_handleResponse (''p'', ''zz'', Null, JNum 9) example_pending)
     = pendingRequests example_pending"
  using handleResponse_settles [OF example_pending_fields(7), of "''r1''" "''p''" "JStr ''boom''" Null]
    handleResponse_settles [OF example_pending_fields(7), of "''r1''" "''p''" Null "JNum 9"]
    handleResponse_settles [OF example_pending_fields(7), of "''zz''" "''p''" Null "JNum 9"]
  by (simp add: example_pending_fields)

section \<open>C6: a request whose send raises\<close>

text \<open>
  Claim C6. Let \<^verbatim>\<open>request(path, payload)\<close> be called on an open Socket and let the
  Transport's \<^verbatim>\<open>send\<close> raise \<open>e\<close>. The call returns the promise of the request created.
  If the request has not settled when \<^verbatim>\<open>send\<close> raises (no answer came while \<^verbatim>\<open>send\<close>
  ran), it is rejected with an UnhandledException error that wraps \<open>e\<close>. If it has
  settled (an answer came while \<^verbatim>\<open>send\<close> ran), its outcome is the one the answer gave.
  In both cases the entry of the request is not in the pending table afterwards, and
  one \<^verbatim>\<open>error\<close> event carrying \<open>e\<close> is emitted on the bus.
\<close>

theorem request_send_raises:
  assumes "\<not> s_disposed s" and "isOpen s" and "path \<noteq> []"
    and "pendingRequests s = Some requests"
    and "fst (Transport_send (template (channel s) @ '':requests'') [JStr path, JStr nid, payload]
               (transport s)) = Some e"
  shows "fst (Socket_request path payload nid now reply s) = Future (allocated s)
       \<and> emitted (bus (snd (Socket_request path payload nid now reply s)))
           = emitted (bus s) @ [(''error'', EventArg (Event ''error'' e))]
       \<and> pendingRequests (snd (Socket_request path payload nid now reply s))
           = Some (AList.delete nid requests)
       \<and> map_of (AList.delete nid requests) nid = None
       \<and> (reply = None \<longrightarrow>
            settled (snd (Socket_request path payload nid now reply s)) (allocated s)
              = Some (Rejected (UnhandledExceptionError e)))
       \<and> (\<forall>err pl. reply = Some (err, pl) \<longrightarrow>
            settled (snd (Socket_request path payload nid now reply s)) (allocated s)
              = Some (if truthy err then Rejected (rejection err) else Resolved pl))"
proof -
  obtain t where t: "Transport_send (template (channel s) @ '':requests'')
      [JStr path, JStr nid, payload] (transport s) = (Some e, t)"
    using assms(5) by (cases "Transport_send (template (channel s) @ '':requests'')
      [JStr path, JStr nid, payload] (transport s)") simp
  note r = request_raised [OF assms(1-4) t]
  show ?thesis
  proof (cases reply)
    case None
    then show ?thesis
      by (simp add: r during_send_def Let_def isDisposed_def reject_def publish_def
          delete_update_same delete_lookup_same)
  next
    case (Some a)
    then obtain err pl where a: "reply = Some (err, pl)" by (cases a) simp
    show ?thesis
      by (simp add: r a during_send_def Socket_handleResponse_def Let_def isDisposed_def
          reject_def resolve_def publish_def update_conv' delete_update_same delete_lookup_same
          delete_idem)
  qed
qed

theorem request_send_raises_witness:
  "fst (Socket_request ''p'' (JNum 3) ''r1'' 5 None example_faulty) = Future 0
   \<and> emitted (bus (snd (Socket_request ''p'' (JNum 3) ''r1'' 5 None example_faulty)))
       = [(''open'', EventArg (Event ''open'' Undefined)),
          (''error'', EventArg (Event ''error'' (JStr ''pipe closed'')))]
   \<and> pendingRequests (snd (Socket_request ''p'' (JNum 3) ''r1'' 5 None example_faulty)) = Some []
   \<and> settled (snd (Socket_request ''p'' (JNum 3) ''r1'' 5 None example_faulty)) 0
       = Some (Rejected (UnhandledExceptionError (JStr ''pipe closed'')))
   \<and> settled (snd (Socket_request ''p'' (JNum 3) ''r1'' 5 (Some (Null, JNum 8)) example_faulty)) 0
       = Some (Resolved (JNum 8))
   \<and> emitted (bus (snd (Socket_request ''p'' (JNum 3) ''r1'' 5 (Some (Null, JNum 8)) example_faulty)))
       = [(''open'', EventArg (Event ''open'' Undefined)),
          (''error'', EventArg (Event ''error'' (JStr ''pipe closed'')))]"
proof -
  have ne: "''p'' \<noteq> []" by simp
  have raises: "fst (Transport_send (template (channel example_faulty) @ '':requests'')
      [JStr ''p'', JStr ''r1'', JNum 3] (transport example_faulty)) = Some (JStr ''pipe closed'')"
    by (simp add: Transport_send_def requires_def example_faulty_fields template_def)
  from request_send_raises [OF example_faulty_fields(1) example_faulty_fields(2) ne
      example_faulty_fields(3) raises, of 5 None]
    request_send_raises [OF example_faulty_fields(1) example_faulty_fields(2) ne
      example_faulty_fields(3) raises, of 5 "Some (Null, JNum 8)"]
  show ?thesis by (simp add: example_faulty_fields)
qed

section \<open>C7: the shape of a response on the wire\<close>



section \<open>Auxiliary facts about delivery\<close>

lemma run_unbind_fields [simp]:
  "unbind_var (run_unbind u b) = unbind_var b"
  "calls (run_unbind u b) = calls b"
  "wrappers (run_unbind u b) = wrappers b"
  by (cases u; simp split: option.splits)+

lemma publish_fields [simp]:
  "unbind_var (publish key arg b) = unbind_var b"
  "calls (publish key arg b) = calls b"
  "events (publish key arg b) = events b"
  by (simp_all add: publish_def)

lemma run_callbacks_preserves:
  assumes "\<forall>cb \<in> set cbs. \<forall>b b' x. P b \<longrightarrow> f cb b = Some (b', x) \<longrightarrow> P b'"
    and "P b" and "run_callbacks f cbs b = Some (b', x)"
  shows "P b'"
  using assms
proof (induction cbs arbitrary: b)
  case Nil
  then show ?case by simp
next
  case (Cons cb cbs)
  from Cons.prems(3) obtain b1 y where f: "f cb b = Some (b1, y)"
    by (cases "f cb b") auto
  have p1: "P b1"
    by (rule Cons.prems(1) [rule_format, of cb b b1 y]) (simp_all add: Cons.prems(2) f)
  have rest: "\<forall>cb \<in> set cbs. \<forall>b b' x. P b \<longrightarrow> f cb b = Some (b', x) \<longrightarrow> P b'"
    by (intro ballI allI impI) (rule Cons.prems(1) [rule_format], simp_all)
  show ?case
  proof (cases y)
    case None
    with f Cons.prems(3) have "run_callbacks f cbs b1 = Some (b', x)" by simp
    from Cons.IH [OF rest p1 this] show ?thesis .
  next
    case (Some e)
    with f Cons.prems(3) have "b' = b1" by simp
    with p1 show ?thesis by simp
  qed
qed


lemma emit_cell:
  assumes ih: "\<And>cb b b' x. call_callback n BE beh cb arg b = Some (b', x) \<Longrightarrow> unbind_var b c = None
                 \<Longrightarrow> unbind_var b' c = None"
    and r: "emit (Suc n) BE beh key arg b = Some (b', x)" and u: "unbind_var b c = None"
  shows "unbind_var b' c = None"
proof (rule run_callbacks_preserves
          [where f = "\<lambda>cb. call_callback n BE beh cb arg" and b = "publish key arg b"
            and P = "\<lambda>b. unbind_var b c = None"])
  show "\<forall>cb\<in>set (case events b key of None \<Rightarrow> [] | Some cbs \<Rightarrow> cbs).
          \<forall>b b' x. unbind_var b c = None \<longrightarrow> call_callback n BE beh cb arg b = Some (b', x)
            \<longrightarrow> unbind_var b' c = None"
    by (intro ballI allI impI) (rule ih)
  show "unbind_var (publish key arg b) c = None" using u by simp
  show "run_callbacks (\<lambda>cb. call_callback n BE beh cb arg)
          (case events b key of None \<Rightarrow> [] | Some cbs \<Rightarrow> cbs) (publish key arg b) = Some (b', x)"
    using r by simp
qed


lemma call_cell:
  assumes ih: "\<And>cb b b' x. invoke n BE beh cb arg b = Some (b', x) \<Longrightarrow> unbind_var b c = None
                 \<Longrightarrow> unbind_var b' c = None"
    and r: "call_callback (Suc n) BE beh cb arg b = Some (b', x)" and u: "unbind_var b c = None"
  shows "unbind_var b' c = None"
proof (cases cb)
  case (Direct l)
  with r have "invoke n BE beh (Direct l) arg b = Some (b', x)" by simp
  from ih [OF this u] show ?thesis .
next
  case (Once c' l)
  show ?thesis
  proof (cases "unbind_var b c'")
    case None
    with r u Once show ?thesis by simp
  next
    case (Some u0)
    with r Once obtain b1 y where i: "invoke n BE beh (Once c' l) arg b = Some (b1, y)"
      by (cases "invoke n BE beh (Once c' l) arg b") auto
    from ih [OF i u] have u1: "unbind_var b1 c = None" .
    show ?thesis
    proof (cases y)
      case (Some e)
      with r Once \<open>unbind_var b c' = Some u0\<close> i have "b' = b1" by simp
      with u1 show ?thesis by simp
    next
      case None
      note y = this
      show ?thesis
      proof (cases "unbind_var b1 c'")
        case None
        with r Once \<open>unbind_var b c' = Some u0\<close> i y have "b' = b1" by simp
        with u1 show ?thesis by simp
      next
        case (Some u')
        with r Once \<open>unbind_var b c' = Some u0\<close> i y
        have "b' = (run_unbind u' b1)\<lparr> unbind_var := (unbind_var b1)(c' := None) \<rparr>" by simp
        with u1 show ?thesis by simp
      qed
    qed
  qed
qed

lemma invoke_cell:
  assumes ih: "\<And>data b b' x. handleEvent n BE beh data b = Some (b', x) \<Longrightarrow> unbind_var b c = None
                 \<Longrightarrow> unbind_var b' c = None"
    and r: "invoke (Suc n) BE beh cb arg b = Some (b', x)" and u: "unbind_var b c = None"
  shows "unbind_var b' c = None"
proof -
  let ?b1 = "b\<lparr> calls := calls b @ [(cb, arg)] \<rparr>"
  let ?k = "length (filter (\<lambda>(cb', a). target cb' = target cb) (calls b))"
  have u1: "unbind_var ?b1 c = None" using u by simp
  show ?thesis
  proof (cases "beh (target cb) ?k")
    case Returns
    with r have "b' = ?b1" by (simp add: Let_def)
    with u1 show ?thesis by simp
  next
    case (Raises e)
    with r have "b' = ?b1" by (simp add: Let_def)
    with u1 show ?thesis by simp
  next
    case (Delivers name payload)
    with r have "handleEvent n BE beh (name, payload) ?b1 = Some (b', x)" by (simp add: Let_def)
    from ih [OF this u1] show ?thesis .
  qed
qed

lemma handle_cell:
  assumes ih: "\<And>key arg b b' x. emit n BE beh key arg b = Some (b', x) \<Longrightarrow> unbind_var b c = None
                 \<Longrightarrow> unbind_var b' c = None"
    and r: "handleEvent (Suc n) BE beh data b = Some (b', x)" and u: "unbind_var b c = None"
  shows "unbind_var b' c = None"
proof -
  obtain name payload where d: "data = (name, payload)" by (cases data)
  from r d obtain b1 y where e1: "emit n BE beh (BE @ ''/'' @ name) (EventArg (Event name payload)) b
        = Some (b1, y)"
    by (cases "emit n BE beh (BE @ ''/'' @ name) (EventArg (Event name payload)) b") auto
  from ih [OF e1 u] have u1: "unbind_var b1 c = None" .
  show ?thesis
  proof (cases y)
    case None
    with r d e1 have "b' = b1" by simp
    with u1 show ?thesis by simp
  next
    case (Some e)
    with r d e1 have "emit n BE beh ''error'' (EventArg (Event ''error'' e)) b1 = Some (b', x)"
      by simp
    from ih [OF this u1] show ?thesis .
  qed
qed

lemma delivery_cell_stays_unset:
  "(\<forall>BE beh key arg b b' x. emit n BE beh key arg b = Some (b', x) \<longrightarrow> unbind_var b c = None
        \<longrightarrow> unbind_var b' c = None)
 \<and> (\<forall>BE beh cb arg b b' x. call_callback n BE beh cb arg b = Some (b', x) \<longrightarrow> unbind_var b c = None
        \<longrightarrow> unbind_var b' c = None)
 \<and> (\<forall>BE beh cb arg b b' x. invoke n BE beh cb arg b = Some (b', x) \<longrightarrow> unbind_var b c = None
        \<longrightarrow> unbind_var b' c = None)
 \<and> (\<forall>BE beh data b b' x. handleEvent n BE beh data b = Some (b', x) \<longrightarrow> unbind_var b c = None
        \<longrightarrow> unbind_var b' c = None)"
proof (induction n)
  case 0
  show ?case by simp
next
  case (Suc n)
  note ih_emit = Suc.IH [THEN conjunct1, rule_format]
  note ih_call = Suc.IH [THEN conjunct2, THEN conjunct1, rule_format]
  note ih_invoke = Suc.IH [THEN conjunct2, THEN conjunct2, THEN conjunct1, rule_format]
  note ih_handle = Suc.IH [THEN conjunct2, THEN conjunct2, THEN conjunct2, rule_format]
  show ?case
  proof (intro conjI allI impI)
    fix BE beh key arg b b' x
    assume r: "emit (Suc n) BE beh key arg b = Some (b', x)" and u: "unbind_var b c = None"
    show "unbind_var b' c = None" by (rule emit_cell [OF _ r u]) (rule ih_call; assumption)
  next
    fix BE beh cb arg b b' x
    assume r: "call_callback (Suc n) BE beh cb arg b = Some (b', x)" and u: "unbind_var b c = None"
    show "unbind_var b' c = None" by (rule call_cell [OF _ r u]) (rule ih_invoke; assumption)
  next
    fix BE beh cb arg b b' x
    assume r: "invoke (Suc n) BE beh cb arg b = Some (b', x)" and u: "unbind_var b c = None"
    show "unbind_var b' c = None" by (rule invoke_cell [OF _ r u]) (rule ih_handle; assumption)
  next
    fix BE beh data b b' x
    assume r: "handleEvent (Suc n) BE beh data b = Some (b', x)" and u: "unbind_var b c = None"
    show "unbind_var b' c = None" by (rule handle_cell [OF _ r u]) (rule ih_emit; assumption)
  qed
qed

lemmas emit_cell_stays_unset = delivery_cell_stays_unset [THEN conjunct1, rule_format]
lemmas handleEvent_cell_stays_unset =
  delivery_cell_stays_unset [THEN conjunct2, THEN conjunct2, THEN conjunct2, rule_format]

lemma registered_run_unbind: "registered (run_unbind u b) \<subseteq> registered b"
proof (cases u)
  case (Unbind key cb)
  show ?thesis
  proof (cases "events b key")
    case None
    with Unbind show ?thesis by simp
  next
    case (Some cbs)
    with Unbind show ?thesis
      by (auto simp add: registered_def split: if_splits)
  qed
qed

lemma registered_fields [simp]:
  "registered (publish key arg b) = registered b"
  "registered (b\<lparr> calls := cs \<rparr>) = registered b"
  "registered (b\<lparr> unbind_var := uv \<rparr>) = registered b"
  by (simp_all add: registered_def publish_def)

lemma invocations_fields [simp]:
  "invocations w (publish key arg b) = invocations w b"
  "invocations w (run_unbind u b) = invocations w b"
  "invocations w (b\<lparr> unbind_var := uv \<rparr>) = invocations w b"
  "invocations w (b\<lparr> calls := calls b @ [(cb, arg)] \<rparr>)
     = (if cb = w then Suc (invocations w b) else invocations w b)"
  by (simp_all add: invocations_def publish_def)

lemma once_inv_publish: "once_inv c h k0 b \<Longrightarrow> once_inv c h k0 (publish key arg b)"
  by (simp add: once_inv_def)

lemma once_inv_log:
  "cb \<noteq> Once c h \<Longrightarrow> once_inv c h k0 b \<Longrightarrow> once_inv c h k0 (b\<lparr> calls := calls b @ [(cb, arg)] \<rparr>)"
  by (simp add: once_inv_def)

lemma once_inv_unbind_other:
  assumes "c' \<noteq> c" and "once_inv c h k0 b"
  shows "once_inv c h k0 ((run_unbind u b)\<lparr> unbind_var := (unbind_var b)(c' := None) \<rparr>)"
  using assms registered_run_unbind [of u b]
  by (auto simp add: once_inv_def)

lemma once_inv_fire:
  assumes "once_inv c h k0 b" and "unbind_var b c = Some u0"
  shows "once_inv c h k0
           ((run_unbind u (b\<lparr> calls := calls b @ [(Once c h, arg)] \<rparr>))
              \<lparr> unbind_var := (unbind_var b)(c := None) \<rparr>)"
  using assms registered_run_unbind [of u "b\<lparr> calls := calls b @ [(Once c h, arg)] \<rparr>"]
  by (auto simp add: once_inv_def)


lemma emit_inv:
  assumes ih: "\<And>cb b b' x. own c h cb \<Longrightarrow> once_inv c h k0 b
                 \<Longrightarrow> call_callback n BE beh cb arg b = Some (b', x) \<Longrightarrow> once_inv c h k0 b'"
    and p: "once_inv c h k0 b" and r: "emit (Suc n) BE beh key arg b = Some (b', x)"
  shows "once_inv c h k0 b'"
proof (rule run_callbacks_preserves
          [where f = "\<lambda>cb. call_callback n BE beh cb arg" and b = "publish key arg b"
            and P = "once_inv c h k0"])
  show "\<forall>cb\<in>set (case events b key of None \<Rightarrow> [] | Some cbs \<Rightarrow> cbs).
          \<forall>b b' x. once_inv c h k0 b \<longrightarrow> call_callback n BE beh cb arg b = Some (b', x)
            \<longrightarrow> once_inv c h k0 b'"
  proof (intro ballI allI impI)
    fix cb ba b'a xa
    assume m: "cb \<in> set (case events b key of None \<Rightarrow> [] | Some cbs \<Rightarrow> cbs)"
      and pa: "once_inv c h k0 ba" and ra: "call_callback n BE beh cb arg ba = Some (b'a, xa)"
    from m have "cb \<in> registered b"
      by (cases "events b key") (auto simp add: registered_def)
    with p have "own c h cb" by (simp add: once_inv_def)
    from ih [OF this pa ra] show "once_inv c h k0 b'a" .
  qed
  show "once_inv c h k0 (publish key arg b)" using p by (rule once_inv_publish)
  show "run_callbacks (\<lambda>cb. call_callback n BE beh cb arg)
          (case events b key of None \<Rightarrow> [] | Some cbs \<Rightarrow> cbs) (publish key arg b) = Some (b', x)"
    using r by simp
qed

lemma invoke_returns:
  assumes "\<forall>k. beh (target cb) k = Returns"
  shows "invoke (Suc n) BE beh cb arg b = Some (b\<lparr> calls := calls b @ [(cb, arg)] \<rparr>, None)"
  using assms by (simp add: Let_def)

lemma call_inv:
  assumes ih: "\<And>cb b b' x. cb \<noteq> Once c h \<Longrightarrow> once_inv c h k0 b
                 \<Longrightarrow> invoke n BE beh cb arg b = Some (b', x) \<Longrightarrow> once_inv c h k0 b'"
    and hb: "\<forall>k. beh h k = Returns"
    and o: "own c h cb" and p: "once_inv c h k0 b"
    and r: "call_callback (Suc n) BE beh cb arg b = Some (b', x)"
  shows "once_inv c h k0 b'"
proof (cases cb)
  case (Direct l)
  with r have i: "invoke n BE beh (Direct l) arg b = Some (b', x)" by simp
  have "Direct l \<noteq> Once c h" by simp
  from ih [OF this p i] show ?thesis .
next
  case (Once c' l)
  show ?thesis
  proof (cases "unbind_var b c'")
    case None
    with r Once have "b' = b" by simp
    with p show ?thesis by simp
  next
    case (Some u0)
    note armed = this
    show ?thesis
    proof (cases "c' = c")
      case True
      with o Once have l: "l = h" by (simp add: own_def)
      from r Once armed obtain m where n: "n = Suc m"
        by (cases n) auto
      have i: "invoke n BE beh (Once c h) arg b
                 = Some (b\<lparr> calls := calls b @ [(Once c h, arg)] \<rparr>, None)"
        unfolding n by (rule invoke_returns) (simp add: hb)
      from r Once armed True l i
      have "b' = (run_unbind u0 (b\<lparr> calls := calls b @ [(Once c h, arg)] \<rparr>))
                   \<lparr> unbind_var := (unbind_var b)(c := None) \<rparr>"
        by simp
      with once_inv_fire [OF p, of u0 u0 arg] armed True show ?thesis by simp
    next
      case False
      from r Once armed obtain b1 y where i: "invoke n BE beh (Once c' l) arg b = Some (b1, y)"
        by (cases "invoke n BE beh (Once c' l) arg b") auto
      have "Once c' l \<noteq> Once c h" using False by simp
      from ih [OF this p i] have p1: "once_inv c h k0 b1" .
      show ?thesis
      proof (cases y)
        case (Some e)
        with r Once armed i have "b' = b1" by simp
        with p1 show ?thesis by simp
      next
        case None
        note y = this
        show ?thesis
        proof (cases "unbind_var b1 c'")
          case None
          with r Once armed i y have "b' = b1" by simp
          with p1 show ?thesis by simp
        next
          case (Some u')
          with r Once armed i y
          have "b' = (run_unbind u' b1)\<lparr> unbind_var := (unbind_var b1)(c' := None) \<rparr>" by simp
          with once_inv_unbind_other [OF False p1, of u'] show ?thesis by simp
        qed
      qed
    qed
  qed
qed

lemma invoke_inv:
  assumes ih: "\<And>data b b' x. once_inv c h k0 b
                 \<Longrightarrow> handleEvent n BE beh data b = Some (b', x) \<Longrightarrow> once_inv c h k0 b'"
    and ne: "cb \<noteq> Once c h" and p: "once_inv c h k0 b"
    and r: "invoke (Suc n) BE beh cb arg b = Some (b', x)"
  shows "once_inv c h k0 b'"
proof -
  let ?b1 = "b\<lparr> calls := calls b @ [(cb, arg)] \<rparr>"
  let ?k = "length (filter (\<lambda>(cb', a). target cb' = target cb) (calls b))"
  have p1: "once_inv c h k0 ?b1" using ne p by (rule once_inv_log)
  show ?thesis
  proof (cases "beh (target cb) ?k")
    case Returns
    with r have "b' = ?b1" by (simp add: Let_def)
    with p1 show ?thesis by simp
  next
    case (Raises e)
    with r have "b' = ?b1" by (simp add: Let_def)
    with p1 show ?thesis by simp
  next
    case (Delivers name payload)
    with r have "handleEvent n BE beh (name, payload) ?b1 = Some (b', x)" by (simp add: Let_def)
    from ih [OF p1 this] show ?thesis .
  qed
qed

lemma handle_inv:
  assumes ih: "\<And>key arg b b' x. once_inv c h k0 b
                 \<Longrightarrow> emit n BE beh key arg b = Some (b', x) \<Longrightarrow> once_inv c h k0 b'"
    and p: "once_inv c h k0 b"
    and r: "handleEvent (Suc n) BE beh data b = Some (b', x)"
  shows "once_inv c h k0 b'"
proof -
  obtain name payload where d: "data = (name, payload)" by (cases data)
  from r d obtain b1 y where e1: "emit n BE beh (BE @ ''/'' @ name) (EventArg (Event name payload)) b
        = Some (b1, y)"
    by (cases "emit n BE beh (BE @ ''/'' @ name) (EventArg (Event name payload)) b") auto
  from ih [OF p e1] have p1: "once_inv c h k0 b1" .
  show ?thesis
  proof (cases y)
    case None
    with r d e1 have "b' = b1" by simp
    with p1 show ?thesis by simp
  next
    case (Some e)
    with r d e1 have "emit n BE beh ''error'' (EventArg (Event ''error'' e)) b1 = Some (b', x)"
      by simp
    from ih [OF p1 this] show ?thesis .
  qed
qed

lemma delivery_once_inv:
  assumes hb: "\<forall>k. beh h k = Returns"
  shows
  "(\<forall>key arg b b' x. once_inv c h k0 b \<longrightarrow> emit n BE beh key arg b = Some (b', x)
        \<longrightarrow> once_inv c h k0 b')
 \<and> (\<forall>cb arg b b' x. own c h cb \<longrightarrow> once_inv c h k0 b
        \<longrightarrow> call_callback n BE beh cb arg b = Some (b', x) \<longrightarrow> once_inv c h k0 b')
 \<and> (\<forall>cb arg b b' x. cb \<noteq> Once c h \<longrightarrow> once_inv c h k0 b
        \<longrightarrow> invoke n BE beh cb arg b = Some (b', x) \<longrightarrow> once_inv c h k0 b')
 \<and> (\<forall>data b b' x. once_inv c h k0 b \<longrightarrow> handleEvent n BE beh data b = Some (b', x)
        \<longrightarrow> once_inv c h k0 b')"
proof (induction n)
  case 0
  show ?case by simp
next
  case (Suc n)
  note ih_emit = Suc.IH [THEN conjunct1, rule_format]
  note ih_call = Suc.IH [THEN conjunct2, THEN conjunct1, rule_format]
  note ih_invoke = Suc.IH [THEN conjunct2, THEN conjunct2, THEN conjunct1, rule_format]
  note ih_handle = Suc.IH [THEN conjunct2, THEN conjunct2, THEN conjunct2, rule_format]
  show ?case
  proof (intro conjI allI impI)
    fix key arg b b' x
    assume p: "once_inv c h k0 b" and r: "emit (Suc n) BE beh key arg b = Some (b', x)"
    show "once_inv c h k0 b'" by (rule emit_inv [OF _ p r]) (rule ih_call; assumption)
  next
    fix cb arg b b' x
    assume o: "own c h cb" and p: "once_inv c h k0 b"
      and r: "call_callback (Suc n) BE beh cb arg b = Some (b', x)"
    show "once_inv c h k0 b'" by (rule call_inv [OF _ hb o p r]) (rule ih_invoke; assumption)
  next
    fix cb arg b b' x
    assume ne: "cb \<noteq> Once c h" and p: "once_inv c h k0 b"
      and r: "invoke (Suc n) BE beh cb arg b = Some (b', x)"
    show "once_inv c h k0 b'" by (rule invoke_inv [OF _ ne p r]) (rule ih_handle; assumption)
  next
    fix data b b' x
    assume p: "once_inv c h k0 b" and r: "handleEvent (Suc n) BE beh data b = Some (b', x)"
    show "once_inv c h k0 b'" by (rule handle_inv [OF _ p r]) (rule ih_emit; assumption)
  qed
qed


lemma emit_once_inv:
  assumes "\<forall>k. beh h k = Returns" and "once_inv c h k0 b"
    and "emit n BE beh key arg b = Some (b', x)"
  shows "once_inv c h k0 b'"
  by (rule delivery_once_inv [where beh = beh and h = h, OF assms(1), THEN conjunct1, rule_format, OF assms(2,3)])

lemma handleEvent_once_inv:
  assumes "\<forall>k. beh h k = Returns" and "once_inv c h k0 b"
    and "handleEvent n BE beh data b = Some (b', x)"
  shows "once_inv c h k0 b'"
  by (rule delivery_once_inv [where beh = beh and h = h, OF assms(1), THEN conjunct2, THEN conjunct2, THEN conjunct2,
        rule_format, OF assms(2,3)])
lemmas call_cell_stays_unset =
  delivery_cell_stays_unset [THEN conjunct2, THEN conjunct1, rule_format]

lemma call_once_clears:
  assumes "call_callback n BE beh (Once c l) arg b = Some (b', None)"
  shows "unbind_var b' c = None"
proof (cases n)
  case 0
  with assms show ?thesis by simp
next
  case (Suc m)
  note n = this
  show ?thesis
  proof (cases "unbind_var b c")
    case None
    with assms n show ?thesis by simp
  next
    case (Some u0)
    note armed = this
    from assms n armed obtain b1 y where i: "invoke m BE beh (Once c l) arg b = Some (b1, y)"
      by (cases "invoke m BE beh (Once c l) arg b") auto
    show ?thesis
    proof (cases y)
      case (Some e)
      with assms n armed i show ?thesis by simp
    next
      case None
      note y = this
      show ?thesis
      proof (cases "unbind_var b1 c")
        case None
        with assms n armed i y show ?thesis by simp
      next
        case (Some u')
        with assms n armed i y
        have "b' = (run_unbind u' b1)\<lparr> unbind_var := (unbind_var b1)(c := None) \<rparr>" by simp
        then show ?thesis by simp
      qed
    qed
  qed
qed

lemma run_callbacks_reaches:
  assumes "\<forall>cb \<in> set cbs. \<forall>b b' x. Q b \<longrightarrow> f cb b = Some (b', x) \<longrightarrow> Q b'"
    and "\<forall>b b'. f w b = Some (b', None) \<longrightarrow> Q b'"
    and "w \<in> set cbs" and "run_callbacks f cbs b = Some (b', None)"
  shows "Q b'"
  using assms
proof (induction cbs arbitrary: b)
  case Nil
  then show ?case by simp
next
  case (Cons cb cbs)
  from Cons.prems(4) obtain b1 y where f: "f cb b = Some (b1, y)"
    by (cases "f cb b") auto
  have y: "y = None"
  proof (cases y)
    case None
    then show ?thesis .
  next
    case (Some e)
    with f Cons.prems(4) show ?thesis by simp
  qed
  with f Cons.prems(4) have rest: "run_callbacks f cbs b1 = Some (b', None)" by simp
  have keep: "\<forall>cb \<in> set cbs. \<forall>b b' x. Q b \<longrightarrow> f cb b = Some (b', x) \<longrightarrow> Q b'"
    by (intro ballI allI impI) (rule Cons.prems(1) [rule_format], simp_all)
  show ?case
  proof (cases "w = cb")
    case True
    with f y have "f w b = Some (b1, None)" by simp
    with Cons.prems(2) have "Q b1" by blast
    from run_callbacks_preserves [OF keep this rest] show ?thesis .
  next
    case False
    with Cons.prems(3) have "w \<in> set cbs" by simp
    from Cons.IH [OF keep Cons.prems(2) this rest] show ?thesis .
  qed
qed

lemma emit_clears:
  assumes r: "emit n BE beh key arg b = Some (b', None)"
    and k: "events b key = Some cbs" and m: "Once c l \<in> set cbs"
  shows "unbind_var b' c = None"
proof (cases n)
  case 0
  with r show ?thesis by simp
next
  case (Suc j)
  show ?thesis
  proof (rule run_callbacks_reaches
      [where f = "\<lambda>cb. call_callback j BE beh cb arg" and b = "publish key arg b"
        and Q = "\<lambda>b. unbind_var b c = None" and w = "Once c l" and cbs = cbs])
    show "\<forall>cb\<in>set cbs. \<forall>b b' x. unbind_var b c = None
            \<longrightarrow> call_callback j BE beh cb arg b = Some (b', x) \<longrightarrow> unbind_var b' c = None"
      by (intro ballI allI impI) (rule call_cell_stays_unset; assumption)
    show "\<forall>b b'. call_callback j BE beh (Once c l) arg b = Some (b', None)
            \<longrightarrow> unbind_var b' c = None"
      by (intro allI impI) (rule call_once_clears)
    show "Once c l \<in> set cbs" by (rule m)
    show "run_callbacks (\<lambda>cb. call_callback j BE beh cb arg) cbs (publish key arg b)
            = Some (b', None)"
      using r Suc k by simp
  qed
qed

lemma call_returns:
  assumes "\<forall>l k. beh l k = Returns"
  shows "\<exists>b'. call_callback (Suc (Suc n)) BE beh cb arg b = Some (b', None)"
proof (cases cb)
  case (Direct l)
  have "invoke (Suc n) BE beh (Direct l) arg b
          = Some (b\<lparr> calls := calls b @ [(Direct l, arg)] \<rparr>, None)"
    by (rule invoke_returns) (simp add: assms)
  with Direct show ?thesis by simp
next
  case (Once c l)
  have i: "invoke (Suc n) BE beh (Once c l) arg b
          = Some (b\<lparr> calls := calls b @ [(Once c l, arg)] \<rparr>, None)"
    by (rule invoke_returns) (simp add: assms)
  show ?thesis
  proof (cases "unbind_var b c")
    case None
    with Once show ?thesis by simp
  next
    case (Some u0)
    with Once i show ?thesis by simp
  qed
qed

lemma run_callbacks_total:
  assumes "\<forall>cb b. \<exists>b'. f cb b = Some (b', None)"
  shows "\<exists>b'. run_callbacks f cbs b = Some (b', None)"
proof (induction cbs arbitrary: b)
  case Nil
  show ?case by simp
next
  case (Cons cb cbs)
  from assms obtain b1 where "f cb b = Some (b1, None)" by blast
  with Cons.IH [of b1] show ?case by simp
qed

lemma emit_returns:
  assumes "\<forall>l k. beh l k = Returns"
  shows "\<exists>b'. emit (Suc (Suc (Suc n))) BE beh key arg b = Some (b', None)"
proof -
  have "\<forall>cb b. \<exists>b'. call_callback (Suc (Suc n)) BE beh cb arg b = Some (b', None)"
    by (intro allI) (rule call_returns [OF assms])
  from run_callbacks_total [OF this] show ?thesis by simp
qed

lemma subscribe_once_inv:
  assumes f: "fresh_wrappers b0"
    and s: "Socket_onEvent BE name h True b0 = (sub, b1)"
  shows "once_inv (wrappers b0) h (invocations (Once (wrappers b0) h) b0) b1"
    and "\<exists>cbs. events b1 (BE @ ''/'' @ name) = Some cbs \<and> Once (wrappers b0) h \<in> set cbs"
    and "unbind_var b1 (wrappers b0) \<noteq> None"
proof -
  let ?key = "BE @ ''/'' @ name"
  let ?c = "wrappers b0"
  let ?old = "case events b0 ?key of None \<Rightarrow> [] | Some cbs \<Rightarrow> cbs"
  from s have b1: "b1 = b0\<lparr> events := (events b0)(?key \<mapsto> ?old @ [Once ?c h]),
                          unbind_var := (unbind_var b0)(?c \<mapsto> Unbind ?key (Once ?c h)),
                          wrappers := Suc ?c \<rparr>"
    by (simp add: Socket_onEvent_def Socket_subscribe_def bus_on_def)
  show "\<exists>cbs. events b1 ?key = Some cbs \<and> Once ?c h \<in> set cbs" by (simp add: b1)
  show "unbind_var b1 ?c \<noteq> None" by (simp add: b1)
  have "\<And>cb. cb \<in> registered b1 \<Longrightarrow> own ?c h cb"
  proof -
    fix cb assume "cb \<in> registered b1"
    then obtain key cbs where kc: "events b1 key = Some cbs" "cb \<in> set cbs"
      by (auto simp add: registered_def)
    show "own ?c h cb"
    proof (cases "cb = Once ?c h")
      case True
      then show ?thesis by (simp add: own_def)
    next
      case False
      have "\<exists>key cbs. events b0 key = Some cbs \<and> cb \<in> set cbs"
      proof (cases "key = ?key")
        case True
        from kc(1) True have "cbs = ?old @ [Once ?c h]" by (simp add: b1)
        with kc(2) False have m: "cb \<in> set ?old" by simp
        then obtain a where a: "events b0 ?key = Some a" by (cases "events b0 ?key") auto
        with m have "cb \<in> set a" by simp
        with a show ?thesis by blast
      next
        case False
        with kc have "events b0 key = Some cbs" by (simp add: b1)
        with kc(2) show ?thesis by blast
      qed
      with f have "\<forall>c l. cb = Once c l \<longrightarrow> c < ?c"
        by (auto simp add: fresh_wrappers_def)
      then show ?thesis by (auto simp add: own_def)
    qed
  qed
  then show "once_inv ?c h (invocations (Once ?c h) b0) b1"
    by (simp add: once_inv_def) (simp add: b1 invocations_def)
qed

lemma example_bus0_fresh: "fresh_wrappers example_bus0"
  by (auto simp add: fresh_wrappers_def example_bus0_def Socket_onEvent_def Socket_subscribe_def
      bus_on_def createNanoEvents_def split: if_splits)

lemma example_bus0_fields:
  "wrappers example_bus0 = 0" "invocations (Once 0 7) example_bus0 = 0"
  by (simp_all add: example_bus0_def Socket_onEvent_def Socket_subscribe_def
      bus_on_def createNanoEvents_def invocations_def)

section \<open>C8: a handler registered with once\<close>

text \<open>
  Claim C8, as stated, says that every handler registered with
  \<^verbatim>\<open>onEvent(name, handler, once=true)\<close> is invoked exactly once when two events of that
  name are delivered back-to-back, also when the second delivery happens while the first
  is under way. The wrapper calls the handler first and unbinds afterwards, so a handler
  that raises stays registered and is called again by the next event. Amended claim: let
  the handler return normally whenever it is called, without itself causing a delivery
  before it returns. When an event of that name has been emitted to the end without a
  listener raising, the handler has been invoked exactly once through this subscription,
  and it is not invoked again by any later delivery of that name; this holds whatever
  the other functions registered on the bus do, also when they cause further deliveries
  while one is under way. When no function registered on the bus raises or causes a
  delivery, two deliveries one after the other both return, and the handler is invoked
  exactly once.
\<close>

theorem once_handler_invoked_once:
  assumes "fresh_wrappers b0"
    and "Socket_onEvent BUS_EVENTS name h True b0 = (sub, b1)"
    and "\<forall>k. beh h k = Returns"
  shows "(\<forall>n m p1 p2 b2 b3 x.
            emit n BUS_EVENTS beh (BUS_EVENTS @ ''/'' @ name) (EventArg (Event name p1)) b1
              = Some (b2, None) \<longrightarrow>
            handleEvent m BUS_EVENTS beh (name, p2) b2 = Some (b3, x) \<longrightarrow>
            invocations (Once (wrappers b0) h) b2 = Suc (invocations (Once (wrappers b0) h) b0)
            \<and> invocations (Once (wrappers b0) h) b3 = Suc (invocations (Once (wrappers b0) h) b0))
       \<and> ((\<forall>l k. beh l k = Returns) \<longrightarrow>
            (\<forall>n m p1 p2. \<exists>b2 b3.
               handleEvent (n + 4) BUS_EVENTS beh (name, p1) b1 = Some (b2, None)
               \<and> handleEvent (m + 4) BUS_EVENTS beh (name, p2) b2 = Some (b3, None)
               \<and> invocations (Once (wrappers b0) h) b3
                   = Suc (invocations (Once (wrappers b0) h) b0)))"
proof -
  let ?c = "wrappers b0"
  let ?k0 = "invocations (Once ?c h) b0"
  let ?key = "BUS_EVENTS @ ''/'' @ name"
  note inv1 = subscribe_once_inv(1) [OF assms(1,2)]
  from subscribe_once_inv(2) [OF assms(1,2)]
  obtain cbs where reg: "events b1 ?key = Some cbs" "Once ?c h \<in> set cbs" by blast
  have general: "\<And>n m p1 p2 b2 b3 x.
      emit n BUS_EVENTS beh ?key (EventArg (Event name p1)) b1 = Some (b2, None) \<Longrightarrow>
      handleEvent m BUS_EVENTS beh (name, p2) b2 = Some (b3, x) \<Longrightarrow>
      invocations (Once ?c h) b2 = Suc ?k0 \<and> invocations (Once ?c h) b3 = Suc ?k0"
  proof -
    fix n m p1 p2 b2 b3 x
    assume r1: "emit n BUS_EVENTS beh ?key (EventArg (Event name p1)) b1 = Some (b2, None)"
      and r2: "handleEvent m BUS_EVENTS beh (name, p2) b2 = Some (b3, x)"
    from emit_once_inv [OF assms(3) inv1 r1] have inv2: "once_inv ?c h ?k0 b2" .
    from emit_clears [OF r1 reg] have c2: "unbind_var b2 ?c = None" .
    from handleEvent_once_inv [OF assms(3) inv2 r2] have inv3: "once_inv ?c h ?k0 b3" .
    from handleEvent_cell_stays_unset [OF r2 c2] have c3: "unbind_var b3 ?c = None" .
    from inv2 c2 inv3 c3
    show "invocations (Once ?c h) b2 = Suc ?k0 \<and> invocations (Once ?c h) b3 = Suc ?k0"
      by (simp add: once_inv_def)
  qed
  have total: "\<And>n m p1 p2. \<forall>l k. beh l k = Returns \<Longrightarrow>
      \<exists>b2 b3. handleEvent (n + 4) BUS_EVENTS beh (name, p1) b1 = Some (b2, None)
        \<and> handleEvent (m + 4) BUS_EVENTS beh (name, p2) b2 = Some (b3, None)
        \<and> invocations (Once ?c h) b3 = Suc ?k0"
  proof -
    fix n m p1 p2
    assume all: "\<forall>l k. beh l k = Returns"
    from emit_returns [OF all, of n BUS_EVENTS ?key "EventArg (Event name p1)" b1]
    obtain b2 where e1: "emit (Suc (Suc (Suc n))) BUS_EVENTS beh ?key (EventArg (Event name p1)) b1
        = Some (b2, None)" by blast
    then have h1: "handleEvent (n + 4) BUS_EVENTS beh (name, p1) b1 = Some (b2, None)"
      by (simp add: numeral_eq_Suc)
    from emit_returns [OF all, of m BUS_EVENTS ?key "EventArg (Event name p2)" b2]
    obtain b3 where e2: "emit (Suc (Suc (Suc m))) BUS_EVENTS beh ?key (EventArg (Event name p2)) b2
        = Some (b3, None)" by blast
    then have h2: "handleEvent (m + 4) BUS_EVENTS beh (name, p2) b2 = Some (b3, None)"
      by (simp add: numeral_eq_Suc)
    from general [OF e1 h2] h1 h2 show "\<exists>b2 b3.
        handleEvent (n + 4) BUS_EVENTS beh (name, p1) b1 = Some (b2, None)
        \<and> handleEvent (m + 4) BUS_EVENTS beh (name, p2) b2 = Some (b3, None)
        \<and> invocations (Once ?c h) b3 = Suc ?k0" by blast
  qed
  show ?thesis
  proof (intro conjI allI impI)
    fix n m p1 p2 b2 b3 x
    assume "emit n BUS_EVENTS beh ?key (EventArg (Event name p1)) b1 = Some (b2, None)"
      and "handleEvent m BUS_EVENTS beh (name, p2) b2 = Some (b3, x)"
    from general [OF this] show "invocations (Once ?c h) b2 = Suc ?k0"
      and "invocations (Once ?c h) b3 = Suc ?k0" by simp_all
  next
    fix n m p1 p2
    assume "\<forall>l k. beh l k = Returns"
    from total [OF this] show "\<exists>b2 b3.
        handleEvent (n + 4) BUS_EVENTS beh (name, p1) b1 = Some (b2, None)
        \<and> handleEvent (m + 4) BUS_EVENTS beh (name, p2) b2 = Some (b3, None)
        \<and> invocations (Once ?c h) b3 = Suc ?k0" .
  qed
qed

theorem once_handler_invoked_once_witness:
  "emit 10 ''0.17'' redelivering_other ''0.17/tick'' (EventArg (Event ''tick'' (JNum 1))) example_bus \<noteq> None
   \<and> invocations (Direct 3)
        (fst (the (emit 10 ''0.17'' redelivering_other ''0.17/tick''
                     (EventArg (Event ''tick'' (JNum 1))) example_bus))) = 2
   \<and> invocations (Once 0 7)
        (fst (the (emit 10 ''0.17'' redelivering_other ''0.17/tick''
                     (EventArg (Event ''tick'' (JNum 1))) example_bus))) = 1
   \<and> invocations (Once 0 7)
        (fst (the (handleEvent 10 ''0.17'' redelivering_other (''tick'', JNum 2)
           (fst (the (emit 10 ''0.17'' redelivering_other ''0.17/tick''
                        (EventArg (Event ''tick'' (JNum 1))) example_bus)))))) = 1"
proof -
  let ?e = "emit 10 ''0.17'' redelivering_other ''0.17/tick''
              (EventArg (Event ''tick'' (JNum 1))) example_bus"
  let ?b2 = "fst (the ?e)"
  let ?h = "handleEvent 10 ''0.17'' redelivering_other (''tick'', JNum 2) ?b2"
  have sub: "Socket_onEvent ''0.17'' ''tick'' 7 True example_bus0
               = (fst (Socket_onEvent ''0.17'' ''tick'' 7 True example_bus0), example_bus)"
    by (simp add: example_bus_def)
  have hb: "\<forall>k. redelivering_other 7 k = Returns" by (simp add: redelivering_other_def)
  have ne: "?e \<noteq> None" by code_simp
  have x: "snd (the ?e) = None" by code_simp
  from ne x have e: "?e = Some (?b2, None)" by (cases ?e) auto
  have "?h \<noteq> None" by code_simp
  then have h: "?h = Some (fst (the ?h), snd (the ?h))" by (cases ?h) auto
  have k: "''0.17'' @ ''/'' @ ''tick'' = ''0.17/tick''" by simp
  have d: "invocations (Direct 3) ?b2 = 2" by code_simp
  have r: "invocations (Once 0 7) ?b2 = Suc 0 \<and> invocations (Once 0 7) (fst (the ?h)) = Suc 0"
    using once_handler_invoked_once [where beh = redelivering_other,
      OF example_bus0_fresh sub hb, THEN conjunct1, rule_format,
      where n = 10 and ?p1.0 = "JNum 1" and ?b2.0 = ?b2 and m = 10 and ?p2.0 = "JNum 2"
        and ?b3.0 = "fst (the ?h)" and x = "snd (the ?h)"] e h
    by (simp only: k example_bus0_fields)
  from ne d r show ?thesis unfolding One_nat_def by blast
qed

text \<open>
  The claim as stated fails: a handler that raises on its first call is invoked by the
  first event and again by the second.
\<close>

theorem once_handler_failing_counterexample:
  "handleEvent 10 ''0.17'' failing_handler (''tick'', JNum 1) example_once \<noteq> None
   \<and> handleEvent 10 ''0.17'' failing_handler (''tick'', JNum 2)
        (fst (the (handleEvent 10 ''0.17'' failing_handler (''tick'', JNum 1) example_once))) \<noteq> None
   \<and> invocations (Once 0 7)
        (fst (the (handleEvent 10 ''0.17'' failing_handler (''tick'', JNum 2)
           (fst (the (handleEvent 10 ''0.17'' failing_handler (''tick'', JNum 1) example_once))))))
       = 2"
  by code_simp

text \<open>
  A handler that itself causes a second delivery of the event before it returns is
  outside the amended claim. The code calls it twice during the first delivery, and the
  outer call of the wrapper then calls \<^verbatim>\<open>unbind\<close>, which the inner call has set to
  \<^verbatim>\<open>undefined\<close>: the TypeError is caught by \<^verbatim>\<open>__handleEvent\<close> and emitted as an
  \<^verbatim>\<open>error\<close> event.
\<close>

lemma once_handler_redelivering_example:
  "handleEvent 10 ''0.17'' redelivering_handler (''tick'', JNum 1) example_once \<noteq> None
   \<and> invocations (Once 0 7)
        (fst (the (handleEvent 10 ''0.17'' redelivering_handler (''tick'', JNum 1) example_once)))
       = 2
   \<and> emitted (fst (the (handleEvent 10 ''0.17'' redelivering_handler (''tick'', JNum 1) example_once)))
       = [(''0.17/tick'', EventArg (Event ''tick'' (JNum 1))),
          (''0.17/tick'', EventArg (Event ''tick'' (JNum 9))),
          (''error'', EventArg (Event ''error'' (JErr (TypeError ''unbind is not a function''))))]"
  by code_simp

section \<open>C9: subscribing on the Transport\<close>

text \<open>
  Claim C9, as stated, says that the subscriber receives the raw argument list of every
  emission of the input on the channel. The listener that \<^verbatim>\<open>on\<close> registers is
  \<^verbatim>\<open>(_, ...args) => { subscriber(args) }\<close>: it binds the first argument of the emission
  and does not pass it on. Amended claim: for every subscription created by
  \<^verbatim>\<open>on(channel, subscriber)\<close> on a Transport that is not disposed, with a channel that
  is not empty, and for every emission on that channel, the subscriber is called with
  one list, the arguments of the emission after the first; the value returned is the
  cancel function bound to the id that \<^verbatim>\<open>nanoid()\<close> gave, the bookkeeping entry
  \<^verbatim>\<open>{channel, fn}\<close> is stored under that id, and calling the cancel function removes
  the entry.
\<close>

theorem on_subscribes:
  assumes "\<not> t_disposed t" and "ch \<noteq> []" and "listeners t = Some ls"
  shows "\<exists>t'. Transport_on ch (Some subscriber) nid t = Inr (Unsubscribe nid, t')
           \<and> map_of (the (listeners t')) nid = Some (ch, Listener (closures t) subscriber)
           \<and> map_of (the (listeners (cancel (Unsubscribe nid) t'))) nid = None
           \<and> (\<forall>emitted_args. input_emit ch emitted_args t'
                 = input_emit ch emitted_args t @ [(subscriber, drop 1 emitted_args)])"
  using assms
  by (simp add: Transport_on_def requires_def Let_def update_conv' input_emit_def
      Transport_unsubscribe_def delete_lookup_same)

theorem on_subscribes_witness:
  "\<exists>t'. Transport_on ''c'' (Some (7::nat)) ''id1'' example_transport = Inr (Unsubscribe ''id1'', t')
        \<and> map_of (the (listeners t')) ''id1'' = Some (''c'', Listener 0 7)
        \<and> input_emit ''c'' [JObj 0, JStr ''ping'', JNum 1] t' = [(7, [JStr ''ping'', JNum 1])]"
proof -
  have ne: "''c'' \<noteq> []" by simp
  from on_subscribes [OF example_transport_fields(1) ne example_transport_fields(2), of 7 "''id1''"]
  show ?thesis
    by (auto simp add: example_transport_fields input_emit_def)
qed

text \<open>
  The claim as stated fails: an emission with the arguments \<^verbatim>\<open>(event, 'ping', 1)\<close>
  reaches the subscriber as \<^verbatim>\<open>['ping', 1]\<close>, not as the list of the three.
\<close>

theorem on_raw_arguments_counterexample:
  "input_emit ''c'' [JObj 0, JStr ''ping'', JNum 1] example_subscribed = [(7, [JStr ''ping'', JNum 1])]
   \<and> input_emit ''c'' [JObj 0, JStr ''ping'', JNum 1] example_subscribed
       \<noteq> [(7, [JObj 0, JStr ''ping'', JNum 1])]"
  by (simp add: example_subscribed_def example_transport_def example_io_def
      Transport_constructor_def Transport_on_def requires_def input_emit_def Let_def)

section \<open>C10: zero durations in the settings\<close>

text \<open>
  Claim C10. A Socket constructed with \<^verbatim>\<open>timeout\<close> 0 or \<^verbatim>\<open>cleanup\<close> 0 uses the default
  of 60000 ms for that option: \<^verbatim>\<open>settings.timeout || 1000 * 60\<close> treats 0 as it treats
  an absent option. The theorem states it for both options, and states the absent
  case beside it.
\<close>

theorem constructor_zero_duration_defaults:
  assumes "Socket_constructor tr settings = Inr s"
  shows "(timeout settings = Some 0 \<longrightarrow> requestTimeout s = 60000)
       \<and> (cleanup settings = Some 0 \<longrightarrow> time (interval s) = 60000)
       \<and> (timeout settings = None \<longrightarrow> requestTimeout s = 60000)
       \<and> (cleanup settings = None \<longrightarrow> time (interval s) = 60000)"
  using assms
  by (auto simp: Socket_constructor_def or_default_def split: option.splits sum.splits)

theorem constructor_zero_duration_defaults_witness:
  "\<exists>s. Socket_constructor (Some (Inr example_io)) \<lparr> timeout = Some 0, cleanup = Some 0 \<rparr> = Inr s
       \<and> requestTimeout s = 60000 \<and> time (interval s) = 60000"
proof -
  obtain s where h: "Socket_constructor (Some (Inr example_io)) \<lparr> timeout = Some 0, cleanup = Some 0 \<rparr> = Inr s"
    by (simp add: Socket_constructor_def Transport_constructor_def example_io_def)
  from constructor_zero_duration_defaults [OF h] h show ?thesis by simp
qed

end
